theory Spec2Isabelle
  imports Complex_Main "HOL-Library.Word"
begin

section \<open>Colours\<close>

text \<open>
  The program handles colours through Go's \<open>color.Color\<close> interface, whose only method
  \<open>RGBA()\<close> returns four alpha-premultiplied 16-bit channel values.
  Three implementations occur in the program: \<open>color.RGBA\<close> (what \<open>*image.RGBA\<close> stores and
  returns from \<open>At\<close>), \<open>color.NRGBA\<close> (what \<open>color.NRGBAModel.Convert\<close> returns in
  \<open>imageToASCII\<close>) and \<open>color.Alpha16\<close> (the colour of \<open>image.Transparent\<close>).
\<close>

type_synonym u8 = "8 word"

datatype rgba = RGBA (cR: u8) (cG: u8) (cB: u8) (cA: u8)

datatype color = ColorRGBA rgba | ColorNRGBA u8 u8 u8 u8 | ColorAlpha16 "16 word"

text \<open>
  \<open>RGBA()\<close> of the colour types, as the standard library computes them
  (\<open>r |= r << 8\<close> is multiplication by 257 on a byte; for \<open>NRGBA\<close> the channel is then
  multiplied by the alpha byte and divided by 255; \<open>Alpha16\<close> returns its alpha in all four
  channels). The values fit 32 bits, so they are natural numbers here.
\<close>

fun color_RGBA :: "color \<Rightarrow> nat \<times> nat \<times> nat \<times> nat" where
  "color_RGBA (ColorRGBA (RGBA r g b a)) =
     (unat r * 257, unat g * 257, unat b * 257, unat a * 257)"
| "color_RGBA (ColorNRGBA r g b a) =
     (unat r * 257 * unat a div 255, unat g * 257 * unat a div 255,
      unat b * 257 * unat a div 255, unat a * 257)"
| "color_RGBA (ColorAlpha16 a) = (unat a, unat a, unat a, unat a)"

text \<open>
  \<open>color.RGBAModel.Convert\<close>: a \<open>color.RGBA\<close> is returned as it is, any other colour is
  reduced to the high bytes of its \<open>RGBA()\<close> values.
\<close>

definition rgbaModel :: "color \<Rightarrow> rgba" where
  "rgbaModel c =
     (case c of
        ColorRGBA px \<Rightarrow> px
      | _ \<Rightarrow> (case color_RGBA c of (r, g, b, a) \<Rightarrow>
          RGBA (of_nat (r div 256)) (of_nat (g div 256)) (of_nat (b div 256)) (of_nat (a div 256))))"

text \<open>\<open>image.Transparent\<close> is the uniform image of \<open>color.Transparent\<close>, which is \<open>Alpha16{0}\<close>.\<close>

definition Transparent :: color where
  "Transparent = ColorAlpha16 0"

section \<open>Character mode: \<open>pixelToASCII\<close>\<close>

text \<open>The glyph ramp \<open>pixels\<close>: fifteen runes, from space to \<open>@\<close>.\<close>

definition pixels :: "char list" where
  "pixels = '' .,:;i1tfLCG08@''"

text \<open>
  \<open>intensity := (r + g + b) * a / 255\<close> on \<open>uint\<close>, where each of \<open>r, g, b, a\<close> is the
  corresponding \<open>RGBA()\<close> value divided by 256. The largest possible product is
  \<open>765 * 255\<close>, so no wrap-around occurs and \<open>nat\<close> is exact.
\<close>

definition intensity :: "color \<Rightarrow> nat" where
  "intensity pixel =
     (case color_RGBA pixel of (r2, g2, b2, a2) \<Rightarrow>
        (r2 div 256 + g2 div 256 + b2 div 256) * (a2 div 256) div 255)"

text \<open>
  \<open>precision := float64(255 * 3 / (len(pixels) - 1))\<close>: the quotient is taken on \<open>int\<close>
  (Go's integer division) and only then converted to \<open>float64\<close>.
\<close>

definition precision :: real where
  "precision = real (255 * 3 div (length pixels - 1))"

text \<open>
  \<open>v := int(math.Floor(float64(intensity)/precision + 0.5))\<close>. The \<open>float64\<close> operations
  are modelled by exact real arithmetic. This is faithful for the values that occur:
  intensity is an integer below \<open>2^53\<close>, \<open>precision\<close> is the integer 54, and the exact
  quotient plus one half is either an integer (when the quotient is an odd multiple of
  one half, which \<open>float64\<close> represents exactly) or at least \<open>1/54\<close> away from the next
  integer, far more than the rounding error of one division and one addition.
\<close>

definition glyph_index :: "color \<Rightarrow> int" where
  "glyph_index pixel = \<lfloor>real (intensity pixel) / precision + 1 / 2\<rfloor>"

text \<open>
  \<open>return pixels[v]\<close>: an index outside the slice is a run-time panic. The type \<open>panic\<close>
  lists the ways in which the functions modelled here can stop the program.
\<close>

datatype panic =
  IndexOutOfRange | DivideByZero | HugeOrNegativeDimensions | LenOutOfRange | OutOfMemory

definition pixelToASCII :: "color \<Rightarrow> panic + char" where
  "pixelToASCII pixel =
     (let v = glyph_index pixel
      in if 0 \<le> v \<and> v < int (length pixels) then Inr (pixels ! nat v)
         else Inl IndexOutOfRange)"

text \<open>
  The quantisation as the specification words it: the bucket width is the ramp's span 765
  divided by the number of glyphs minus one, and the index is intensity over bucket width
  rounded to the nearest integer.
\<close>

definition spec_bucket_width :: real where
  "spec_bucket_width = 765 / real (length pixels - 1)"

definition spec_glyph_index :: "nat \<Rightarrow> int" where
  "spec_glyph_index i = round (real i / spec_bucket_width)"

section \<open>Images\<close>

text \<open>
  An \<open>*image.RGBA\<close> whose rectangle starts at the origin, as \<open>image.NewRGBA(image.Rect(0, 0,
  w, h))\<close> makes it: \<open>Width\<close> and \<open>Height\<close> are \<open>Rect.Max.X\<close> and \<open>Rect.Max.Y\<close>, and \<open>Pix\<close> holds
  the pixels row by row. Go stores four bytes per pixel; here the four bytes of a pixel are
  one \<open>rgba\<close> value, so offsets and the stride count pixels. Coordinates in the program are
  never negative and are natural numbers here.
\<close>

record image =
  Width :: nat
  Height :: nat
  Pix :: "rgba list"

definition NewRGBA :: "nat \<Rightarrow> nat \<Rightarrow> image" where
  "NewRGBA w h = \<lparr>Width = w, Height = h, Pix = replicate (w * h) (RGBA 0 0 0 0)\<rparr>"

definition PixOffset :: "image \<Rightarrow> nat \<Rightarrow> nat \<Rightarrow> nat" where
  "PixOffset img x y = y * Width img + x"

definition in_rect :: "image \<Rightarrow> nat \<Rightarrow> nat \<Rightarrow> bool" where
  "in_rect img x y \<longleftrightarrow> x < Width img \<and> y < Height img"

text \<open>\<open>At\<close> returns the zero colour \<open>color.RGBA{}\<close> for a point outside the rectangle.\<close>

definition At :: "image \<Rightarrow> nat \<Rightarrow> nat \<Rightarrow> rgba" where
  "At img x y = (if in_rect img x y then Pix img ! PixOffset img x y else RGBA 0 0 0 0)"

text \<open>\<open>SetRGBA\<close> and \<open>Set\<close> ignore a point outside the rectangle.\<close>

definition SetRGBA :: "image \<Rightarrow> nat \<Rightarrow> nat \<Rightarrow> rgba \<Rightarrow> image" where
  "SetRGBA img x y c =
     (if in_rect img x y then img\<lparr>Pix := (Pix img)[PixOffset img x y := c]\<rparr> else img)"

definition image_Set :: "image \<Rightarrow> nat \<Rightarrow> nat \<Rightarrow> color \<Rightarrow> image" where
  "image_Set img x y c = SetRGBA img x y (rgbaModel c)"

text \<open>
  The invariant of every \<open>*image.RGBA\<close> the program builds: the pixel slice covers the
  rectangle exactly.
\<close>

definition wf_image :: "image \<Rightarrow> bool" where
  "wf_image img \<longleftrightarrow> length (Pix img) = Width img * Height img"

text \<open>
  The loop nest \<open>for y := 0; y < h; y++ { for x := 0; x < w; x++ { body } }\<close> over a state.
\<close>

definition for_yx :: "nat \<Rightarrow> nat \<Rightarrow> (nat \<Rightarrow> nat \<Rightarrow> 's \<Rightarrow> 's) \<Rightarrow> 's \<Rightarrow> 's" where
  "for_yx h w body s = fold (\<lambda>y. fold (\<lambda>x. body x y) [0..<w]) [0..<h] s"

section \<open>Frame decoding\<close>

subsection \<open>Machine integers and allocation\<close>

text \<open>
  On the 64-bit platforms the program is built for, \<open>uint\<close> is a 64-bit word and \<open>int\<close>
  its two's complement reading: \<open>int(width)\<close> is \<open>sint width\<close>. Arithmetic on \<open>int\<close> wraps
  around; \<open>int64\<close> brings an integer into the range of \<open>int\<close>.
\<close>

type_synonym u64 = "64 word"

definition int64 :: "int \<Rightarrow> int" where
  "int64 v = (v + 2 ^ 63) mod 2 ^ 64 - 2 ^ 63"

text \<open>
  \<open>make([]byte, n)\<close>: a negative length panics; otherwise the allocation succeeds when the
  machine can provide \<open>n\<close> bytes, which \<open>mem n\<close> tells (the runtime's allocation limit and
  the memory at hand), and stops the program when it cannot.
\<close>

definition make_bytes :: "(nat \<Rightarrow> bool) \<Rightarrow> int \<Rightarrow> panic + u8 list" where
  "make_bytes mem n =
     (if n < 0 then Inl LenOutOfRange
      else if mem (nat n) then Inr (replicate (nat n) 0)
      else Inl OutOfMemory)"

text \<open>
  \<open>mul3NonNeg\<close> of package \<open>image\<close>: the product of three integers, or \<open>-1\<close> when an
  argument is negative or a product does not fit (the high word of a 64-bit multiplication
  is not zero, or the result read as \<open>int\<close> is negative).
\<close>

definition mul3NonNeg :: "int \<Rightarrow> int \<Rightarrow> int \<Rightarrow> int" where
  "mul3NonNeg x y z =
     (if x < 0 \<or> y < 0 \<or> z < 0 then - 1
      else if 2 ^ 64 \<le> x * y then - 1
      else if 2 ^ 64 \<le> x * y * z then - 1
      else if 2 ^ 63 \<le> x * y * z then - 1
      else x * y * z)"

text \<open>
  An \<open>*image.RGBA\<close> on any rectangle: the corner \<open>Rect.Min\<close> and the image moved to the
  origin. \<open>image.NewRGBA(image.Rect(x0, y0, x1, y1))\<close> orders the corners, panics when four
  bytes per pixel do not fit \<open>int\<close>, and allocates the zeroed pixel buffer.
\<close>

datatype rgba_image = RGBAImage (Min_X: int) (Min_Y: int) (Img: image)

definition NewRGBA_Rect :: "(nat \<Rightarrow> bool) \<Rightarrow> int \<Rightarrow> int \<Rightarrow> int \<Rightarrow> int \<Rightarrow> panic + rgba_image" where
  "NewRGBA_Rect mem x0 y0 x1 y1 =
     (let minx = min x0 x1; maxx = max x0 x1; miny = min y0 y1; maxy = max y0 y1;
          dx = int64 (maxx - minx); dy = int64 (maxy - miny);
          totalLength = mul3NonNeg 4 dx dy
      in if totalLength < 0 then Inl HugeOrNegativeDimensions
         else case make_bytes mem totalLength of
                Inl e \<Rightarrow> Inl e
              | Inr pix \<Rightarrow>
                  Inr (RGBAImage minx miny
                        \<lparr>Width = nat dx, Height = nat dy,
                         Pix = replicate (nat dx * nat dy) (RGBA 0 0 0 0)\<rparr>))"

text \<open>\<open>Set\<close> on such an image ignores a point outside the rectangle.\<close>

definition RGBA_Set :: "rgba_image \<Rightarrow> int \<Rightarrow> int \<Rightarrow> color \<Rightarrow> rgba_image" where
  "RGBA_Set im x y c =
     (case im of RGBAImage mx my img \<Rightarrow>
        if mx \<le> x \<and> my \<le> y
        then RGBAImage mx my (image_Set img (nat (x - mx)) (nat (y - my)) c)
        else im)"

text \<open>A counting loop whose body may panic: the first panic ends it.\<close>

fun for_each :: "nat list \<Rightarrow> (nat \<Rightarrow> 's \<Rightarrow> panic + 's) \<Rightarrow> 's \<Rightarrow> panic + 's" where
  "for_each [] body s = Inr s"
| "for_each (i # rest) body s =
     (case body i s of
        Inl e \<Rightarrow> Inl e
      | Inr s' \<Rightarrow> for_each rest body s')"

subsection \<open>\<open>frameRGBToImage\<close>: packed RGB888\<close>

text \<open>\<open>frame[i]\<close>: an index outside the slice panics.\<close>

definition frame_at :: "u8 list \<Rightarrow> int \<Rightarrow> panic + u8" where
  "frame_at frame i =
     (if 0 \<le> i \<and> i < int (length frame) then Inr (frame ! nat i) else Inl IndexOutOfRange)"

text \<open>
  The body of the loop nest: the pixel is skipped (\<open>continue\<close>) when \<open>i + 2 >= len(frame)\<close>;
  otherwise its three bytes are read and the pixel is set. All arithmetic is on \<open>int\<close>.
\<close>

definition frameRGB_body :: "u8 list \<Rightarrow> int \<Rightarrow> nat \<Rightarrow> nat \<Rightarrow> rgba_image \<Rightarrow> panic + rgba_image" where
  "frameRGB_body frame stride x y img =
     (let i = int64 (int64 (int y * stride) + int64 (int x * 3))
      in if int (length frame) \<le> int64 (i + 2) then Inr img
         else case frame_at frame i of
                Inl e \<Rightarrow> Inl e
              | Inr r \<Rightarrow>
                  (case frame_at frame (int64 (i + 1)) of
                     Inl e \<Rightarrow> Inl e
                   | Inr g \<Rightarrow>
                       (case frame_at frame (int64 (i + 2)) of
                          Inl e \<Rightarrow> Inl e
                        | Inr b \<Rightarrow>
                            Inr (RGBA_Set img (int x) (int y) (ColorRGBA (RGBA r g b 255))))))"

text \<open>
  The loops run \<open>y\<close> from 0 while \<open>y < h\<close> and \<open>x\<close> from 0 while \<open>x < w\<close>, so not at all for a
  negative bound.
\<close>

definition frameRGBToImage :: "(nat \<Rightarrow> bool) \<Rightarrow> u8 list \<Rightarrow> u64 \<Rightarrow> u64 \<Rightarrow> panic + rgba_image" where
  "frameRGBToImage mem frame width height =
     (let w = sint width; h = sint height
      in case NewRGBA_Rect mem 0 0 w h of
           Inl e \<Rightarrow> Inl e
         | Inr img \<Rightarrow>
             (let stride = int64 (w * 3)
              in for_each [0..<nat h]
                   (\<lambda>y. for_each [0..<nat w] (\<lambda>x. frameRGB_body frame stride x y)) img))"

subsection \<open>\<open>frameToImage\<close>: YUYV422\<close>

text \<open>
  \<open>image.NewYCbCr\<close> with the 4:2:2 subsample ratio on a rectangle at the origin: a luma
  plane of \<open>w * h\<close> bytes and two chroma planes of \<open>((w + 1) / 2) * h\<close> bytes, zeroed.
\<close>

record ycbcr =
  YWidth :: nat
  YHeight :: nat
  Y :: "u8 list"
  Cb :: "u8 list"
  Cr :: "u8 list"
  YStride :: nat
  CStride :: nat

definition NewYCbCr422 :: "nat \<Rightarrow> nat \<Rightarrow> ycbcr" where
  "NewYCbCr422 w h =
     (let cw = (w + 1) div 2
      in \<lparr>YWidth = w, YHeight = h, Y = replicate (w * h) 0,
          Cb = replicate (cw * h) 0, Cr = replicate (cw * h) 0,
          YStride = w, CStride = cw\<rparr>)"

text \<open>
  One round of \<open>for i := range yuyv.Cb\<close>. Each of the four assignments indexes \<open>frame\<close> and a
  plane; an index out of range panics, which ends the function whatever was written before.
\<close>

definition yuyv_body :: "u8 list \<Rightarrow> nat \<Rightarrow> ycbcr \<Rightarrow> panic + ycbcr" where
  "yuyv_body frame i yuyv =
     (let ii = i * 4
      in if i * 2 < length (Y yuyv) \<and> ii < length frame \<and>
            i * 2 + 1 < length (Y yuyv) \<and> ii + 2 < length frame \<and>
            i < length (Cb yuyv) \<and> ii + 1 < length frame \<and>
            i < length (Cr yuyv) \<and> ii + 3 < length frame
         then Inr (yuyv\<lparr>Y := (Y yuyv)[i * 2 := frame ! ii, i * 2 + 1 := frame ! (ii + 2)],
                         Cb := (Cb yuyv)[i := frame ! (ii + 1)],
                         Cr := (Cr yuyv)[i := frame ! (ii + 3)]\<rparr>)
         else Inl IndexOutOfRange)"

fun yuyv_loop :: "u8 list \<Rightarrow> nat list \<Rightarrow> ycbcr \<Rightarrow> panic + ycbcr" where
  "yuyv_loop frame [] yuyv = Inr yuyv"
| "yuyv_loop frame (i # rest) yuyv =
     (case yuyv_body frame i yuyv of
        Inl e \<Rightarrow> Inl e
      | Inr yuyv' \<Rightarrow> yuyv_loop frame rest yuyv')"

text \<open>
  \<open>draw.Draw(img, img.Bounds(), yuyv, b.Min, draw.Src)\<close> from a 4:2:2 \<open>YCbCr\<close> source into an
  \<open>RGBA\<close> destination of the same size: pixel \<open>(x, y)\<close> takes luma \<open>Y[y * YStride + x]\<close> and the
  chroma pair at \<open>y * CStride + x / 2\<close>, converts them and stores the result with alpha 255.
  The conversion \<open>color.YCbCrToRGB\<close> belongs to the standard library and is a parameter.
\<close>

definition draw_body :: "(u8 \<Rightarrow> u8 \<Rightarrow> u8 \<Rightarrow> u8 \<times> u8 \<times> u8) \<Rightarrow> ycbcr \<Rightarrow> nat \<Rightarrow> nat \<Rightarrow> image \<Rightarrow> image" where
  "draw_body YCbCrToRGB src x y dst =
     (let yi = y * YStride src + x; ci = y * CStride src + x div 2
      in case YCbCrToRGB (Y src ! yi) (Cb src ! ci) (Cr src ! ci) of
           (r, g, b) \<Rightarrow> SetRGBA dst x y (RGBA r g b 255))"

definition draw_YCbCr :: "(u8 \<Rightarrow> u8 \<Rightarrow> u8 \<Rightarrow> u8 \<times> u8 \<times> u8) \<Rightarrow> image \<Rightarrow> ycbcr \<Rightarrow> image" where
  "draw_YCbCr YCbCrToRGB dst src =
     for_yx (Height dst) (Width dst) (draw_body YCbCrToRGB src) dst"

definition frameToImage :: "(u8 \<Rightarrow> u8 \<Rightarrow> u8 \<Rightarrow> u8 \<times> u8 \<times> u8) \<Rightarrow> u8 list \<Rightarrow> nat \<Rightarrow> nat \<Rightarrow> panic + image" where
  "frameToImage YCbCrToRGB frame width height =
     (let yuyv = NewYCbCr422 width height
      in case yuyv_loop frame [0..<length (Cb yuyv)] yuyv of
           Inl e \<Rightarrow> Inl e
         | Inr yuyv' \<Rightarrow>
             Inr (draw_YCbCr YCbCrToRGB (NewRGBA (YWidth yuyv') (YHeight yuyv')) yuyv'))"

section \<open>ANSI half-block mode: \<open>imageToANSI\<close>\<close>

text \<open>
  The string builder receives, per cell, the half-block glyph styled with a foreground and
  a background colour, and a line break after each row. The styled string is the terminal
  library's; the output is modelled as the sequence of these writes. \<open>p\<close> stands for
  \<open>p.FromColor\<close>, the conversion of a colour to the terminal's profile.
\<close>

datatype 'c token = HalfBlock 'c 'c | Newline

definition ansi_row :: "(color \<Rightarrow> 'c) \<Rightarrow> image \<Rightarrow> nat \<Rightarrow> 'c token list \<Rightarrow> 'c token list" where
  "ansi_row p img y str =
     fold (\<lambda>x str. str @ [HalfBlock (p (ColorRGBA (At img x y))) (p (ColorRGBA (At img x (y + 1))))])
       [0..<Width img] str"

function ansi_rows :: "(color \<Rightarrow> 'c) \<Rightarrow> image \<Rightarrow> nat \<Rightarrow> 'c token list \<Rightarrow> 'c token list" where
  "ansi_rows p img y str =
     (if y < Height img then ansi_rows p img (y + 2) (ansi_row p img y str @ [Newline])
      else str)"
  by pat_completeness auto
termination
  by (relation "measure (\<lambda>(p, img, y, str). Height img - y)") auto

definition imageToANSI :: "(color \<Rightarrow> 'c) \<Rightarrow> image \<Rightarrow> 'c token list" where
  "imageToANSI p img = ansi_rows p img 0 []"

text \<open>
  The text lines of an output: the cells before each line break; cells after the last line
  break, if any, form a last line.
\<close>

fun text_lines :: "'c token list \<Rightarrow> 'c token list \<Rightarrow> 'c token list list" where
  "text_lines cur [] = (if cur = [] then [] else [cur])"
| "text_lines cur (Newline # ts) = cur # text_lines [] ts"
| "text_lines cur (HalfBlock f b # ts) = text_lines (cur @ [HalfBlock f b]) ts"

section \<open>Background subtraction: \<open>greenscreen\<close>\<close>

text \<open>
  \<open>labdist c1 c2\<close> stands for \<open>colorful.MakeColor(c1)\<close> and \<open>colorful.MakeColor(c2)\<close> followed
  by \<open>DistanceLab\<close>, which belong to the colour library; \<open>bg\<close> is \<open>None\<close> for a nil image and
  \<open>threshold\<close> is the parameter \<open>dist\<close>.
\<close>

definition greenscreen_body :: "(rgba \<Rightarrow> rgba \<Rightarrow> real) \<Rightarrow> image \<Rightarrow> real \<Rightarrow> nat \<Rightarrow> nat \<Rightarrow> image \<Rightarrow> image" where
  "greenscreen_body labdist bg threshold x y img =
     (if labdist (At img x y) (At bg x y) < threshold then image_Set img x y Transparent
      else img)"

definition greenscreen :: "(rgba \<Rightarrow> rgba \<Rightarrow> real) \<Rightarrow> image \<Rightarrow> image option \<Rightarrow> real \<Rightarrow> image" where
  "greenscreen labdist img bg threshold =
     (case bg of
        None \<Rightarrow> img
      | Some b \<Rightarrow> for_yx (Height img) (Width img) (greenscreen_body labdist b threshold) img)"

text \<open>
  A distance for concrete runs: zero between equal colours, as the Euclidean distance of
  the library is, and one otherwise.
\<close>

definition discrete_dist :: "rgba \<Rightarrow> rgba \<Rightarrow> real" where
  "discrete_dist c1 c2 = (if c1 = c2 then 0 else 1)"

section \<open>The FPS window\<close>

text \<open>
  \<open>for i := len(fps) - 1; i > 0; i-- { fps[i] = fps[i-1] }\<close>, started at \<open>i = len(fps) - 1\<close>.
\<close>

fun shift_loop :: "nat \<Rightarrow> real list \<Rightarrow> real list" where
  "shift_loop 0 fps = fps"
| "shift_loop (Suc i) fps = shift_loop i (fps[Suc i := fps ! i])"

text \<open>
  Go's integer division truncates towards zero. \<open>time.Second / time.Since(now)\<close> divides two
  \<open>time.Duration\<close> values, which are integers counting nanoseconds.
\<close>

definition go_div :: "int \<Rightarrow> int \<Rightarrow> int" where
  "go_div a b = (if (a < 0) = (b < 0) then \<bar>a\<bar> div \<bar>b\<bar> else - (\<bar>a\<bar> div \<bar>b\<bar>))"

definition Second :: int where
  "Second = 1000000000"

text \<open>
  One tick of the FPS display with \<open>elapsed = time.Since(now)\<close>: returns the updated window
  and the average that is printed. A zero divisor panics, as does writing \<open>fps[0]\<close> of an
  empty window. The window holds \<open>float64\<close> values; every sample is an integer of magnitude
  at most \<open>10^9\<close> and so are the partial sums, which \<open>float64\<close> represents exactly, so sums are
  modelled exactly; the final quotient is modelled by the exact quotient.
\<close>

definition fps_tick :: "int \<Rightarrow> real list \<Rightarrow> panic + (real list \<times> real)" where
  "fps_tick elapsed fps =
     (let fps1 = shift_loop (length fps - 1) fps
      in if elapsed = 0 then Inl DivideByZero
         else if fps1 = [] then Inl IndexOutOfRange
         else let fps2 = fps1[0 := real_of_int (go_div Second elapsed)];
                  fpsa = fold (\<lambda>f fpsa. fpsa + f) fps2 0
              in Inr (fps2, fpsa / real (length fps2)))"

text \<open>The seed loop appends ten zeros.\<close>

definition fps_seed :: "real list" where
  "fps_seed = fold (\<lambda>i fps. fps @ [0]) [0..<10] []"

text \<open>
  Consecutive ticks with the given elapsed times: the window after the last tick and the
  average printed last (\<open>shown\<close> before the first tick).
\<close>

fun fps_ticks :: "int list \<Rightarrow> real list \<Rightarrow> real \<Rightarrow> panic + (real list \<times> real)" where
  "fps_ticks [] fps shown = Inr (fps, shown)"
| "fps_ticks (elapsed # rest) fps shown =
     (case fps_tick elapsed fps of
        Inl e \<Rightarrow> Inl e
      | Inr (fps', avg) \<Rightarrow> fps_ticks rest fps' avg)"

section \<open>The child-process stream\<close>

text \<open>
  The standard output of the child process, as the reads see it: the bytes it delivers and
  how it ends, by being closed or by a read error other than end of file.
\<close>

datatype stream_end = Closed | Broken string

type_synonym reader = "u8 list \<times> stream_end"

datatype io_error = EOF | ErrUnexpectedEOF | ErrOther string

text \<open>
  \<open>io.ReadFull(r, buf)\<close> with \<open>len(buf) = n\<close>: it returns only when \<open>n\<close> bytes are read or the
  stream has ended. With fewer than \<open>n\<close> bytes left it reports \<open>io.EOF\<close> when no byte was
  read, \<open>io.ErrUnexpectedEOF\<close> when some were and the stream was closed, and the reader's
  own error otherwise.
\<close>

definition ReadFull :: "reader \<Rightarrow> nat \<Rightarrow> (io_error + u8 list) \<times> reader" where
  "ReadFull rd n =
     (case rd of (bs, fin) \<Rightarrow>
        if n \<le> length bs then (Inr (take n bs), (drop n bs, fin))
        else (Inl (case fin of
                     Broken msg \<Rightarrow> ErrOther msg
                   | Closed \<Rightarrow> if bs = [] then EOF else ErrUnexpectedEOF),
              ([], fin)))"

text \<open>
  \<open>frameSizeRGB\<close> is \<open>int(w * h * 3)\<close> for the capture width \<open>w\<close> and height \<open>h\<close>: the
  product is taken on \<open>uint\<close>, where it wraps around, and then read as \<open>int\<close>.
\<close>

definition frameSizeRGB :: "u64 \<Rightarrow> u64 \<Rightarrow> int" where
  "frameSizeRGB camWidth camHeight = sint (camWidth * camHeight * 3)"

text \<open>
  The main loop of \<open>run\<close> in child-process mode without sample generation: the cancellation
  check, the read of one frame into \<open>rgbBuf\<close> (of length \<open>n\<close>), its decoding, and the rest of
  the tick. The rest (resizing, background subtraction, rendering, output, the FPS display)
  involves the resize library, the terminal and the clock; \<open>rest tick img\<close> is \<open>None\<close> when
  it completes and the panic when it stops the program. \<open>ctx_done tick\<close> tells whether the
  context is cancelled when the tick starts. \<open>frames\<close> collects the frames of the completed
  ticks. The loop need not end, so the result is optional.
\<close>

datatype outcome = ReturnNil | ReturnError io_error | Panicked panic

partial_function (option) gst_loop ::
  "(nat \<Rightarrow> bool) \<Rightarrow> (nat \<Rightarrow> bool) \<Rightarrow> (nat \<Rightarrow> rgba_image \<Rightarrow> panic option) \<Rightarrow> u64 \<Rightarrow> u64 \<Rightarrow>
   nat \<Rightarrow> nat \<Rightarrow> reader \<Rightarrow> u8 list list \<Rightarrow> (outcome \<times> u8 list list) option" where
  "gst_loop mem ctx_done rest camWidth camHeight n tick gstReader frames =
     (if ctx_done tick then Some (ReturnNil, frames)
      else case ReadFull gstReader n of
        (res, gstReader') \<Rightarrow>
          (case res of
             Inl err \<Rightarrow>
               if err = EOF \<or> err = ErrUnexpectedEOF then Some (ReturnNil, frames)
               else Some (ReturnError err, frames)
           | Inr rgbBuf \<Rightarrow>
               (case frameRGBToImage mem rgbBuf camWidth camHeight of
                  Inl e \<Rightarrow> Some (Panicked e, frames)
                | Inr img \<Rightarrow>
                    (case rest tick img of
                       Some e \<Rightarrow> Some (Panicked e, frames)
                     | None \<Rightarrow>
                         gst_loop mem ctx_done rest camWidth camHeight n (tick + 1) gstReader'
                           (frames @ [rgbBuf])))))"

text \<open>The frame buffer is allocated once, before the loop.\<close>

definition run_gst ::
  "(nat \<Rightarrow> bool) \<Rightarrow> (nat \<Rightarrow> bool) \<Rightarrow> (nat \<Rightarrow> rgba_image \<Rightarrow> panic option) \<Rightarrow> u64 \<Rightarrow> u64 \<Rightarrow>
   reader \<Rightarrow> (outcome \<times> u8 list list) option" where
  "run_gst mem ctx_done rest camWidth camHeight gstReader =
     (case make_bytes mem (frameSizeRGB camWidth camHeight) of
        Inl e \<Rightarrow> Some (Panicked e, [])
      | Inr rgbBuf \<Rightarrow>
          gst_loop mem ctx_done rest camWidth camHeight (length rgbBuf) 0 gstReader [])"

text \<open>The full frames of a byte sequence: its successive blocks of \<open>n\<close> bytes.\<close>

function full_frames :: "nat \<Rightarrow> u8 list \<Rightarrow> u8 list list" where
  "full_frames n bs =
     (if 0 < n \<and> n \<le> length bs then take n bs # full_frames n (drop n bs) else [])"
  by pat_completeness auto
termination
  by (relation "measure (\<lambda>(n, bs). length bs)") auto

declare full_frames.simps [simp del]

section \<open>Auxiliary notions for the proofs\<close>

text \<open>
  A loop body that rewrites the pixel at its own coordinate from that pixel's old value,
  the pixel functions of the three loop nests, the RGB888 decoding on sizes within range,
  the cells of one output row, and the plane sizes of a 4:2:2 image.
\<close>

definition px_update :: "(nat \<Rightarrow> nat \<Rightarrow> rgba \<Rightarrow> rgba) \<Rightarrow> nat \<Rightarrow> nat \<Rightarrow> image \<Rightarrow> image" where
  "px_update f x y img = SetRGBA img x y (f x y (At img x y))"

definition rgb_px :: "u8 list \<Rightarrow> nat \<Rightarrow> nat \<Rightarrow> nat \<Rightarrow> rgba \<Rightarrow> rgba" where
  "rgb_px frame stride x y old =
     (let i = y * stride + x * 3
      in if i + 2 \<ge> length frame then old
         else RGBA (frame ! i) (frame ! (i + 1)) (frame ! (i + 2)) 255)"

definition decode_rgb :: "u8 list \<Rightarrow> nat \<Rightarrow> nat \<Rightarrow> image" where
  "decode_rgb frame w h = for_yx h w (px_update (rgb_px frame (w * 3))) (NewRGBA w h)"

definition gs_px :: "(rgba \<Rightarrow> rgba \<Rightarrow> real) \<Rightarrow> image \<Rightarrow> real \<Rightarrow> nat \<Rightarrow> nat \<Rightarrow> rgba \<Rightarrow> rgba" where
  "gs_px labdist bg threshold x y old =
     (if labdist old (At bg x y) < threshold then RGBA 0 0 0 0 else old)"

definition ansi_cells :: "(color \<Rightarrow> 'c) \<Rightarrow> image \<Rightarrow> nat \<Rightarrow> 'c token list" where
  "ansi_cells p img k =
     map (\<lambda>x. HalfBlock (p (ColorRGBA (At img x (2 * k)))) (p (ColorRGBA (At img x (2 * k + 1)))))
       [0..<Width img]"

definition planes_ok :: "nat \<Rightarrow> nat \<Rightarrow> nat \<Rightarrow> ycbcr \<Rightarrow> bool" where
  "planes_ok w h m yuyv \<longleftrightarrow>
     YWidth yuyv = w \<and> YHeight yuyv = h \<and> length (Y yuyv) = 2 * m \<and>
     length (Cb yuyv) = m \<and> length (Cr yuyv) = m"

definition draw_px :: "(u8 \<Rightarrow> u8 \<Rightarrow> u8 \<Rightarrow> u8 \<times> u8 \<times> u8) \<Rightarrow> ycbcr \<Rightarrow> nat \<Rightarrow> nat \<Rightarrow> rgba \<Rightarrow> rgba" where
  "draw_px YCbCrToRGB src x y old =
     (let yi = y * YStride src + x; ci = y * CStride src + x div 2
      in case YCbCrToRGB (Y src ! yi) (Cb src ! ci) (Cr src ! ci) of
           (r, g, b) \<Rightarrow> RGBA r g b 255)"

definition fps_push :: "real \<Rightarrow> real list \<Rightarrow> real list" where
  "fps_push s fps = s # butlast fps"

definition end_outcome :: "stream_end \<Rightarrow> outcome" where
  "end_outcome fin = (case fin of Closed \<Rightarrow> ReturnNil | Broken msg \<Rightarrow> ReturnError (ErrOther msg))"

section \<open>Properties of the glyph quantisation\<close>

lemma length_pixels: "length pixels = 15"
  by (simp add: pixels_def)

lemma precision_eq: "precision = 54"
  by (simp add: precision_def length_pixels)

lemma floor_half_up_54: "\<lfloor>real n / 54 + 1 / 2\<rfloor> = (int n + 27) div 54"
proof -
  have e: "real n / 54 + 1 / 2 = real_of_int (int n + 27) / real_of_int 54"
    by (simp add: field_simps)
  show ?thesis
    unfolding e by (rule floor_divide_of_int_eq)
qed

lemma glyph_index_div: "glyph_index pixel = (int (intensity pixel) + 27) div 54"
  by (simp only: glyph_index_def precision_eq floor_half_up_54)

lemma unat_u8_less: "unat (c :: u8) < 256"
  using unsigned_less [of c, where 'a = nat] by simp

lemma channel_bound: "unat (c :: u8) * 257 div 256 \<le> 255"
proof -
  have "unat c < 256"
    by (rule unat_u8_less)
  then show ?thesis by simp
qed

lemma channel_bound_n: "unat (c :: u8) * 257 * unat (a :: u8) div 255 div 256 \<le> 255"
proof -
  have c: "unat c \<le> 255" and a: "unat a \<le> 255"
    using unat_u8_less [of c] unat_u8_less [of a] by simp_all
  have "unat c * unat a \<le> 255 * 255"
    using c a by (rule mult_le_mono)
  then have "257 * (unat c * unat a) \<le> 257 * (255 * 255)"
    by (rule mult_le_mono2)
  moreover have "unat c * 257 * unat a = 257 * (unat c * unat a)"
    by simp
  ultimately have "unat c * 257 * unat a \<le> 255 * 257 * 255"
    by simp
  then have "unat c * 257 * unat a div 255 \<le> 255 * 257 * 255 div 255"
    by (rule div_le_mono)
  then have "unat c * 257 * unat a div 255 div 256 \<le> 255 * 257 * 255 div 255 div 256"
    by (rule div_le_mono)
  then show ?thesis by simp
qed

lemma intensity_le: "intensity pixel \<le> 765"
proof -
  have aux: "(r + g + b) * a div 255 \<le> 765"
    if "r \<le> 255" "g \<le> 255" "b \<le> 255" "a \<le> 255" for r g b a :: nat
  proof -
    have "(r + g + b) * a \<le> 765 * 255"
      using that by (intro mult_le_mono) simp_all
    then have "(r + g + b) * a div 255 \<le> 765 * 255 div 255"
      by (rule div_le_mono)
    then show ?thesis by simp
  qed
  show ?thesis
  proof (cases pixel)
    case (ColorRGBA c)
    then show ?thesis
      by (cases c) (simp add: intensity_def aux channel_bound)
  next
    case (ColorNRGBA r g b a)
    then show ?thesis
      by (simp add: intensity_def aux channel_bound channel_bound_n)
  next
    case (ColorAlpha16 a)
    have "unat a < 65536"
      using unsigned_less [of a, where 'a = nat] by simp
    then have "unat a div 256 \<le> 255"
      by simp
    then show ?thesis
      using ColorAlpha16 by (simp add: intensity_def aux)
  qed
qed

lemma glyph_index_bounds: "0 \<le> glyph_index pixel \<and> glyph_index pixel \<le> 14"
proof -
  have "int (intensity pixel) + 27 \<le> 792"
    using intensity_le [of pixel] by simp
  then have "(int (intensity pixel) + 27) div 54 \<le> 792 div 54"
    by (rule zdiv_mono1) simp
  moreover have "0 \<le> (int (intensity pixel) + 27) div 54"
    by (simp add: pos_imp_zdiv_nonneg_iff)
  ultimately show ?thesis
    unfolding glyph_index_div by simp
qed

lemma intensity_NRGBA_27: "intensity (ColorNRGBA 27 0 0 255) = 27"
  by (simp add: intensity_def)

text \<open>
  C2. As the claim is worded, the bucket width is the quotient \<open>765 / 14\<close> (about 54.64).
  The source takes the quotient on integers before converting it, so its bucket width is
  54: the pixel \<open>NRGBA(27, 0, 0, 255)\<close> has intensity 27, for which the source computes
  glyph index 1 while intensity over \<open>765 / 14\<close> rounds to 0.
\<close>

theorem glyph_index_real_bucket_counterexample:
  "intensity (ColorNRGBA 27 0 0 255) = 27 \<and>
   glyph_index (ColorNRGBA 27 0 0 255) = 1 \<and>
   spec_glyph_index (intensity (ColorNRGBA 27 0 0 255)) = 0"
proof -
  have "round (27 * 14 / 765 :: real) = 0"
    unfolding round_def by simp
  then have "spec_glyph_index 27 = 0"
    by (simp add: spec_glyph_index_def spec_bucket_width_def length_pixels)
  moreover have "glyph_index (ColorNRGBA 27 0 0 255) = 1"
    unfolding glyph_index_div intensity_NRGBA_27 by simp
  ultimately show ?thesis
    by (simp only: intensity_NRGBA_27)
qed

text \<open>
  C2, amended. For every pixel the glyph index is intensity over bucket width, rounded to
  the nearest integer (halves upwards), where the bucket width is the integer quotient of
  765 by the number of glyphs minus one, that is 54, and the intensity lies in 0..765.
  Equivalently the index is \<open>(intensity + 27) div 54\<close>.
\<close>

theorem glyph_index_rounds_integer_bucket:
  "glyph_index pixel = round (real (intensity pixel) / real (765 div (length pixels - 1))) \<and>
   765 div (length pixels - 1) = 54 \<and>
   glyph_index pixel = (int (intensity pixel) + 27) div 54 \<and>
   intensity pixel \<le> 765"
proof -
  have w: "765 div (length pixels - 1) = 54"
    by (simp add: length_pixels)
  have "glyph_index pixel = round (real (intensity pixel) / real (54::nat))"
    by (simp add: glyph_index_def precision_eq round_def)
  then show ?thesis
    using glyph_index_div [of pixel] intensity_le [of pixel] by (simp only: w)
qed

text \<open>
  C4. The glyph index is monotonically non-decreasing in the intensity: a pixel of lower or
  equal intensity never gets a higher glyph index.
\<close>

theorem glyph_index_mono:
  "intensity p1 \<le> intensity p2 \<Longrightarrow> glyph_index p1 \<le> glyph_index p2"
proof -
  assume "intensity p1 \<le> intensity p2"
  then have "int (intensity p1) + 27 \<le> int (intensity p2) + 27"
    by simp
  then have "(int (intensity p1) + 27) div 54 \<le> (int (intensity p2) + 27) div 54"
    by (rule zdiv_mono1) simp
  then show ?thesis
    by (simp only: glyph_index_div)
qed

theorem glyph_index_mono_witness:
  "intensity (ColorNRGBA 10 20 30 255) \<le> intensity (ColorNRGBA 200 100 50 128) \<and>
   glyph_index (ColorNRGBA 10 20 30 255) \<le> glyph_index (ColorNRGBA 200 100 50 128)"
proof -
  have h: "intensity (ColorNRGBA 10 20 30 255) \<le> intensity (ColorNRGBA 200 100 50 128)"
    by (simp add: intensity_def)
  show ?thesis
    using h glyph_index_mono [OF h] by simp
qed

text \<open>
  C5. For every pixel colour the glyph index lies within 0..14, the bounds of the
  fifteen-entry ramp, so the lookup \<open>pixels[v]\<close> never panics and \<open>pixelToASCII\<close> returns
  the glyph at that index.
\<close>

theorem pixelToASCII_in_bounds:
  "0 \<le> glyph_index pixel \<and> glyph_index pixel \<le> 14 \<and> length pixels = 15 \<and>
   pixelToASCII pixel = Inr (pixels ! nat (glyph_index pixel))"
  using glyph_index_bounds [of pixel]
  by (simp add: pixelToASCII_def length_pixels)

section \<open>Properties of images and pixel loops\<close>

lemma offset_inj:
  assumes "x < w" "x' < w" "y * w + x = y' * w + x'"
  shows "x = x' \<and> y = (y'::nat)"
proof -
  have m: "(y * w + x) mod w = x" "(y' * w + x') mod w = x'"
    using assms(1,2) by simp_all
  have d: "(y * w + x) div w = y" "(y' * w + x') div w = y'"
    using assms(1,2) by simp_all
  have "x = x'"
    using m assms(3) by metis
  moreover have "y = y'"
    using d assms(3) by metis
  ultimately show ?thesis by simp
qed

lemma offset_less:
  assumes "x < w" "y < (h::nat)"
  shows "y * w + x < w * h"
proof -
  have "y * w + x < y * w + w" using assms by simp
  also have "\<dots> = (Suc y) * w" by simp
  also have "\<dots> \<le> h * w" using assms by (intro mult_le_mono1) simp
  finally show ?thesis by (simp add: mult.commute)
qed

lemma SetRGBA_dims [simp]:
  "Width (SetRGBA img x y c) = Width img" "Height (SetRGBA img x y c) = Height img"
  by (simp_all add: SetRGBA_def)

lemma SetRGBA_length [simp]: "length (Pix (SetRGBA img x y c)) = length (Pix img)"
  by (simp add: SetRGBA_def)

lemma wf_SetRGBA [simp]: "wf_image (SetRGBA img x y c) = wf_image img"
  by (simp add: wf_image_def)

lemma At_SetRGBA:
  assumes "wf_image img"
  shows "At (SetRGBA img x y c) x' y' =
    (if x' = x \<and> y' = y \<and> in_rect img x y then c else At img x' y')"
proof (cases "in_rect img x y")
  case False
  then show ?thesis by (simp add: SetRGBA_def)
next
  case True
  show ?thesis
  proof (cases "in_rect img x' y'")
    case False
    then show ?thesis using True by (auto simp: At_def SetRGBA_def in_rect_def)
  next
    case r: True
    have len: "PixOffset img x y < length (Pix img)"
      using True assms offset_less [of x "Width img" y "Height img"]
      by (simp add: in_rect_def PixOffset_def wf_image_def)
    have inj: "PixOffset img x y = PixOffset img x' y' \<longleftrightarrow> x = x' \<and> y = y'"
      using True r offset_inj [of x "Width img" x' y y']
      by (auto simp: in_rect_def PixOffset_def)
    show ?thesis
      using True r len inj
      by (auto simp: At_def SetRGBA_def in_rect_def PixOffset_def nth_list_update)
  qed
qed

lemma px_update_dims [simp]:
  "Width (px_update f x y img) = Width img" "Height (px_update f x y img) = Height img"
  "wf_image (px_update f x y img) = wf_image img"
  by (simp_all add: px_update_def)

lemma At_px_update:
  "wf_image img \<Longrightarrow> At (px_update f x y img) x' y' =
    (if x' = x \<and> y' = y \<and> in_rect img x y then f x y (At img x y) else At img x' y')"
  by (simp add: px_update_def At_SetRGBA)

lemma in_rect_px_update [simp]: "in_rect (px_update f x y img) a b = in_rect img a b"
  by (simp add: in_rect_def)

lemma row_loop:
  assumes "wf_image img"
  shows "wf_image (fold (\<lambda>x. px_update f x y) [0..<n] img) \<and>
    Width (fold (\<lambda>x. px_update f x y) [0..<n] img) = Width img \<and>
    Height (fold (\<lambda>x. px_update f x y) [0..<n] img) = Height img \<and>
    (\<forall>x' y'. At (fold (\<lambda>x. px_update f x y) [0..<n] img) x' y' =
       (if y' = y \<and> x' < n \<and> in_rect img x' y' then f x' y' (At img x' y') else At img x' y'))"
proof (induction n)
  case 0
  show ?case using assms by simp
next
  case (Suc n)
  let ?r = "fold (\<lambda>x. px_update f x y) [0..<n] img"
  have r: "fold (\<lambda>x. px_update f x y) [0..<Suc n] img = px_update f n y ?r"
    by simp
  have inr: "in_rect ?r a b = in_rect img a b" for a b
    using Suc.IH by (simp add: in_rect_def)
  show ?case
    unfolding r using Suc.IH
    by (auto simp: At_px_update inr less_Suc_eq)
qed

lemma for_yx_Suc: "for_yx (Suc h) w body s = fold (\<lambda>x. body x h) [0..<w] (for_yx h w body s)"
  by (simp add: for_yx_def)

lemma for_yx_0: "for_yx 0 w body s = s"
  by (simp add: for_yx_def)

lemma for_yx_px_update:
  assumes "wf_image img"
  shows "wf_image (for_yx h w (px_update f) img) \<and>
    Width (for_yx h w (px_update f) img) = Width img \<and>
    Height (for_yx h w (px_update f) img) = Height img \<and>
    (\<forall>x' y'. At (for_yx h w (px_update f) img) x' y' =
       (if y' < h \<and> x' < w \<and> in_rect img x' y' then f x' y' (At img x' y') else At img x' y'))"
proof (induction h)
  case 0
  show ?case using assms by (simp add: for_yx_0)
next
  case (Suc h)
  let ?r = "for_yx h w (px_update f) img"
  have wf: "wf_image ?r" using Suc.IH by simp
  have inr: "in_rect ?r a b = in_rect img a b" for a b
    using Suc.IH by (simp add: in_rect_def)
  show ?case
    unfolding for_yx_Suc using row_loop [OF wf, of f h w] Suc.IH
    by (auto simp: inr less_Suc_eq)
qed

section \<open>Properties of \<open>frameRGBToImage\<close>\<close>

lemma SetRGBA_At_id: "SetRGBA img x y (At img x y) = img"
  by (simp add: SetRGBA_def At_def)

lemma rgbaModel_RGBA [simp]: "rgbaModel (ColorRGBA c) = c"
  by (simp add: rgbaModel_def)

lemma rgbaModel_Transparent [simp]: "rgbaModel Transparent = RGBA 0 0 0 0"
  by (simp add: rgbaModel_def Transparent_def)

lemma wf_NewRGBA [simp]: "wf_image (NewRGBA w h)"
  by (simp add: wf_image_def NewRGBA_def)

lemma NewRGBA_dims [simp]: "Width (NewRGBA w h) = w" "Height (NewRGBA w h) = h"
  "length (Pix (NewRGBA w h)) = w * h"
  by (simp_all add: NewRGBA_def)

lemma At_NewRGBA [simp]: "At (NewRGBA w h) x y = RGBA 0 0 0 0"
  using offset_less [of x w y h]
  by (simp add: At_def in_rect_def PixOffset_def NewRGBA_def)





text \<open>Within the range of \<open>int\<close> nothing wraps.\<close>

lemma int64_id: "- (2 ^ 63) \<le> v \<Longrightarrow> v < 2 ^ 63 \<Longrightarrow> int64 v = v"
proof -
  assume a: "- (2 ^ 63) \<le> v" and b: "v < 2 ^ 63"
  have "0 \<le> v + 2 ^ 63" using a by simp
  moreover have "v + 2 ^ 63 < 2 ^ 64" using b by simp
  ultimately have "(v + 2 ^ 63) mod 2 ^ 64 = v + 2 ^ 63"
    by (rule mod_pos_pos_trivial)
  then show ?thesis
    unfolding int64_def by simp
qed

lemma int_less_pow: "n < 2 ^ k \<Longrightarrow> int n < 2 ^ k"
proof -
  assume "n < 2 ^ k"
  then have "int n < int (2 ^ k)"
    by (simp only: of_nat_less_iff)
  then show ?thesis
    by simp
qed

lemma int64_nat: "n < 2 ^ 63 \<Longrightarrow> int64 (int n) = int n"
proof -
  assume n: "n < 2 ^ 63"
  have "- (2 ^ 63) \<le> (0::int)" by simp
  also have "0 \<le> int n" by simp
  finally have "- (2 ^ 63) \<le> int n" .
  then show ?thesis
    using int_less_pow [OF n] by (rule int64_id)
qed

lemma sint_unat_u64:
  assumes "unat (w :: u64) < 2 ^ 63"
  shows "sint w = int (unat w)"
proof -
  have u: "uint w < 2 ^ 63"
    using int_less_pow [OF assms] by simp
  have z: "- (2 ^ 63) \<le> uint w"
  proof -
    have "- (2 ^ 63) \<le> (0::int)" by simp
    also have "0 \<le> uint w" by simp
    finally show ?thesis .
  qed
  have "sint w = signed_take_bit 63 (uint w)"
    by (simp add: sint_uint)
  also have "\<dots> = uint w"
    using z u by (rule signed_take_bit_int_eq_self)
  finally show ?thesis
    by simp
qed

lemma mul3NonNeg_id:
  assumes "0 \<le> x" "0 \<le> y" "0 \<le> z" "x * y < 2 ^ 64" "x * y * z < 2 ^ 63"
  shows "mul3NonNeg x y z = x * y * z"
proof -
  have "(2::int) ^ 63 \<le> 2 ^ 64" by simp
  with assms(5) have "x * y * z < 2 ^ 64" by (rule less_le_trans)
  then show ?thesis
    using assms unfolding mul3NonNeg_def by simp
qed

lemma mul3NonNeg_ok:
  assumes "W < 2 ^ 62" and "4 * W * H < 2 ^ 63"
  shows "mul3NonNeg 4 (int W) (int H) = int (4 * W * H)"
proof -
  have "4 * W < 2 ^ 64"
    using assms(1) by simp
  then have a: "int (4 * W) < 2 ^ 64"
    by (rule int_less_pow)
  have b: "int (4 * W * H) < 2 ^ 63"
    using assms(2) by (rule int_less_pow)
  have "4 * int W = int (4 * W)" by simp
  also note a
  finally have a': "4 * int W < 2 ^ 64" .
  have e: "4 * int W * int H = int (4 * W * H)" by simp
  also note b
  finally have b': "4 * int W * int H < 2 ^ 63" .
  have "mul3NonNeg 4 (int W) (int H) = 4 * int W * int H"
    using _ _ _ a' b' by (rule mul3NonNeg_id) simp_all
  then show ?thesis
    by (simp only: e)
qed

lemma NewRGBA_Rect_ok:
  assumes "W < 2 ^ 62" and "H < 2 ^ 63" and "4 * W * H < 2 ^ 63" and "mem (4 * W * H)"
  shows "NewRGBA_Rect mem 0 0 (int W) (int H) = Inr (RGBAImage 0 0 (NewRGBA W H))"
proof -
  have "(2::nat) ^ 62 \<le> 2 ^ 63" by simp
  with assms(1) have w: "W < 2 ^ 63" by (rule less_le_trans)
  have mn: "min 0 (int W) = 0" "max 0 (int W) = int W" "min 0 (int H) = 0" "max 0 (int H) = int H"
    by simp_all
  have dx: "int64 (int W - 0) = int W" and dy: "int64 (int H - 0) = int H"
    using w assms(2) by (simp_all add: int64_nat)
  have tl: "mul3NonNeg 4 (int W) (int H) = int (4 * W * H)"
    using assms(1,3) by (rule mul3NonNeg_ok)
  have nn: "\<not> int (4 * W * H) < 0"
    by (simp only: of_nat_less_0_iff not_False_eq_True)
  have mk: "make_bytes mem (int (4 * W * H)) = Inr (replicate (4 * W * H) 0)"
    unfolding make_bytes_def using assms(4) nn by (simp only: nat_int if_False if_True)
  show ?thesis
    unfolding NewRGBA_Rect_def Let_def mn dx dy tl mk
    using nn by (simp add: NewRGBA_def del: of_nat_mult of_nat_numeral)
qed

lemma rgb_index_bound:
  assumes "x < (W::nat)" and "y < (H::nat)"
  shows "y * (W * 3) + x * 3 + 3 \<le> 4 * W * H"
proof -
  have "y * W + x < W * H"
    using assms by (rule offset_less [of x W y H])
  then have "y * W + x + 1 \<le> W * H"
    by simp
  then have "3 * (y * W + x + 1) \<le> 3 * (W * H)"
    by (rule mult_le_mono2)
  also have "\<dots> \<le> 4 * (W * H)"
    by simp
  finally show ?thesis
    by (simp add: algebra_simps)
qed

lemma frame_at_in: "n < length frame \<Longrightarrow> frame_at frame (int n) = Inr (frame ! n)"
  by (simp add: frame_at_def)

lemma RGBA_Set_origin:
  "RGBA_Set (RGBAImage 0 0 img) (int x) (int y) (ColorRGBA c) = RGBAImage 0 0 (SetRGBA img x y c)"
  by (simp add: RGBA_Set_def image_Set_def)

text \<open>
  On sizes within range the loop body never panics and does what the pixel function
  \<open>rgb_px\<close> says, so the decoder is the pure loop nest \<open>decode_rgb\<close>.
\<close>

lemma frameRGB_body_ok:
  assumes "x < W" and "y < H" and "4 * W * H < 2 ^ 63"
  shows "frameRGB_body frame (int (W * 3)) x y (RGBAImage 0 0 img) =
    Inr (RGBAImage 0 0 (px_update (rgb_px frame (W * 3)) x y img))"
proof -
  let ?i = "y * (W * 3) + x * 3"
  have top: "?i + 3 \<le> 4 * W * H"
    using assms(1,2) by (rule rgb_index_bound)
  have lt: "n < 2 ^ 63" if "n \<le> ?i + 2" for n
  proof -
    have "n < ?i + 3" using that by simp
    also note top
    also note assms(3)
    finally show ?thesis .
  qed
  have ea: "int y * int (W * 3) = int (y * (W * 3))"
    and eb: "int x * 3 = int (x * 3)"
    and ec: "int (y * (W * 3)) + int (x * 3) = int ?i"
    and e1: "int ?i + 1 = int (?i + 1)"
    and e2: "int ?i + 2 = int (?i + 2)"
    by simp_all
  have a: "int64 (int y * int (W * 3)) = int (y * (W * 3))"
    unfolding ea by (rule int64_nat [OF lt]) simp
  have b: "int64 (int x * 3) = int (x * 3)"
    unfolding eb by (rule int64_nat [OF lt]) simp
  have c: "int64 (int (y * (W * 3)) + int (x * 3)) = int ?i"
    unfolding ec by (rule int64_nat [OF lt]) simp
  have d1: "int64 (int ?i + 1) = int (?i + 1)"
    unfolding e1 by (rule int64_nat [OF lt]) simp
  have d2: "int64 (int ?i + 2) = int (?i + 2)"
    unfolding e2 by (rule int64_nat [OF lt]) simp
  show ?thesis
  proof (cases "length frame \<le> ?i + 2")
    case True
    then have "int (length frame) \<le> int (?i + 2)"
      by (simp only: of_nat_le_iff)
    then have "frameRGB_body frame (int (W * 3)) x y (RGBAImage 0 0 img) = Inr (RGBAImage 0 0 img)"
      unfolding frameRGB_body_def Let_def a b c d2 by (simp only: if_True)
    moreover have "px_update (rgb_px frame (W * 3)) x y img = img"
      using True by (simp add: px_update_def rgb_px_def Let_def SetRGBA_At_id)
    ultimately show ?thesis by simp
  next
    case False
    then have in2: "?i + 2 < length frame" by simp
    then have in1: "?i + 1 < length frame" and in0: "?i < length frame"
      by simp_all
    have g: "\<not> int (length frame) \<le> int (?i + 2)"
      using False by (simp only: of_nat_le_iff not_False_eq_True)
    have "frameRGB_body frame (int (W * 3)) x y (RGBAImage 0 0 img) =
        Inr (RGBA_Set (RGBAImage 0 0 img) (int x) (int y)
          (ColorRGBA (RGBA (frame ! ?i) (frame ! (?i + 1)) (frame ! (?i + 2)) 255)))"
      unfolding frameRGB_body_def Let_def a b c d1 d2
        frame_at_in [OF in0] frame_at_in [OF in1] frame_at_in [OF in2]
      using g by (simp only: if_False sum.case)
    moreover have "px_update (rgb_px frame (W * 3)) x y img =
        SetRGBA img x y (RGBA (frame ! ?i) (frame ! (?i + 1)) (frame ! (?i + 2)) 255)"
      using False by (simp add: px_update_def rgb_px_def Let_def)
    ultimately show ?thesis
      by (simp only: RGBA_Set_origin)
  qed
qed

lemma for_each_pure:
  assumes "\<And>i s. i \<in> set xs \<Longrightarrow> body i (wrap s) = Inr (wrap (g i s))"
  shows "for_each xs body (wrap s) = Inr (wrap (fold g xs s))"
  using assms
proof (induction xs arbitrary: s)
  case Nil
  show ?case by simp
next
  case (Cons i rest)
  have "body i (wrap s) = Inr (wrap (g i s))"
    by (rule Cons.prems) simp
  moreover have "for_each rest body (wrap (g i s)) = Inr (wrap (fold g rest (g i s)))"
    by (rule Cons.IH) (simp add: Cons.prems)
  ultimately show ?case by simp
qed

lemma frameRGB_loops_ok:
  assumes "4 * W * H < 2 ^ 63"
  shows "for_each [0..<H]
      (\<lambda>y. for_each [0..<W] (\<lambda>x. frameRGB_body frame (int (W * 3)) x y)) (RGBAImage 0 0 img) =
    Inr (RGBAImage 0 0 (for_yx H W (px_update (rgb_px frame (W * 3))) img))"
  unfolding for_yx_def
proof (rule for_each_pure)
  fix y s
  assume y: "y \<in> set [0..<H]"
  show "for_each [0..<W] (\<lambda>x. frameRGB_body frame (int (W * 3)) x y) (RGBAImage 0 0 s) =
    Inr (RGBAImage 0 0 (fold (\<lambda>x. px_update (rgb_px frame (W * 3)) x y) [0..<W] s))"
  proof (rule for_each_pure)
    fix x t
    assume "x \<in> set [0..<W]"
    then have "x < W" by simp
    moreover have "y < H" using y by simp
    ultimately show "frameRGB_body frame (int (W * 3)) x y (RGBAImage 0 0 t) =
      Inr (RGBAImage 0 0 (px_update (rgb_px frame (W * 3)) x y t))"
      using assms by (rule frameRGB_body_ok)
  qed
qed

lemma frameRGBToImage_ok:
  assumes "unat width < 2 ^ 62" and "unat height < 2 ^ 63"
    and "4 * unat width * unat height < 2 ^ 63" and "mem (4 * unat width * unat height)"
  shows "frameRGBToImage mem frame width height =
    Inr (RGBAImage 0 0 (decode_rgb frame (unat width) (unat height)))"
proof -
  let ?W = "unat width" and ?H = "unat height"
  have "(2::nat) ^ 62 \<le> 2 ^ 63" by simp
  with assms(1) have w63: "?W < 2 ^ 63" by (rule less_le_trans)
  have w: "sint width = int ?W" and h: "sint height = int ?H"
    using w63 assms(2) by (simp_all add: sint_unat_u64)
  have new: "NewRGBA_Rect mem 0 0 (int ?W) (int ?H) = Inr (RGBAImage 0 0 (NewRGBA ?W ?H))"
    using assms by (rule NewRGBA_Rect_ok)
  show ?thesis
  proof (cases "?H = 0")
    case True
    show ?thesis
      unfolding frameRGBToImage_def Let_def w h new
      by (simp add: True decode_rgb_def for_yx_def del: of_nat_mult of_nat_numeral)
  next
    case False
    then have "1 \<le> ?H" by simp
    then have "3 * ?W * 1 \<le> 4 * ?W * ?H"
      by (intro mult_le_mono) simp_all
    then have "?W * 3 \<le> 4 * ?W * ?H"
      by (simp add: mult.commute)
    also note assms(3)
    finally have "?W * 3 < 2 ^ 63" .
    then have stride: "int64 (int ?W * 3) = int (?W * 3)"
      using int64_nat [of "?W * 3"] by simp
    show ?thesis
      unfolding frameRGBToImage_def Let_def w h new stride
      using frameRGB_loops_ok [OF assms(3), of frame "NewRGBA ?W ?H"]
      by (simp add: decode_rgb_def del: of_nat_mult of_nat_numeral)
  qed
qed


lemma frameRGBToImage_huge:
  "frameRGBToImage (\<lambda>n. True) frame 4294967296 4294967296 = Inl HugeOrNegativeDimensions"
proof -
  have s: "sint (4294967296 :: u64) = 4294967296"
    by simp
  have d: "int64 4294967296 = 4294967296"
    by (simp add: int64_def)
  have m: "mul3NonNeg 4 4294967296 4294967296 = - 1"
    by (simp add: mul3NonNeg_def)
  have "NewRGBA_Rect (\<lambda>n. True) 0 0 4294967296 4294967296 = Inl HugeOrNegativeDimensions"
    unfolding NewRGBA_Rect_def Let_def by (simp add: d m)
  then show ?thesis
    unfolding frameRGBToImage_def Let_def s by simp
qed


text \<open>
  A width of \<open>2^64 - 1\<close> is \<open>-1\<close> as \<open>int\<close>: the rectangle is put in order, the image is the
  one pixel at \<open>(-1, 0)\<close>, the column loop does not run and nothing is decoded.
\<close>

lemma frameRGBToImage_negative_width:
  "frameRGBToImage (\<lambda>n. True) [7, 8, 9] 18446744073709551615 1 =
     Inr (RGBAImage (- 1) 0 \<lparr>Width = 1, Height = 1, Pix = [RGBA 0 0 0 0]\<rparr>)"
proof -
  have s: "sint (18446744073709551615 :: u64) = - 1" and t: "sint (1 :: u64) = 1"
    by simp_all
  have d: "int64 1 = 1"
    by (simp add: int64_def)
  have m: "mul3NonNeg 4 1 1 = 4"
    by (simp add: mul3NonNeg_def)
  have "NewRGBA_Rect (\<lambda>n. True) 0 0 (- 1) 1 =
      Inr (RGBAImage (- 1) 0 \<lparr>Width = 1, Height = 1, Pix = [RGBA 0 0 0 0]\<rparr>)"
    unfolding NewRGBA_Rect_def Let_def by (simp add: d m make_bytes_def)
  then show ?thesis
    unfolding frameRGBToImage_def Let_def s t by simp
qed



section \<open>Properties of \<open>greenscreen\<close>\<close>

lemma greenscreen_body_px:
  "greenscreen_body labdist bg threshold = px_update (gs_px labdist bg threshold)"
  by (intro ext)
    (simp add: greenscreen_body_def px_update_def gs_px_def image_Set_def SetRGBA_At_id)

text \<open>
  C3. As the claim is worded, a masked pixel keeps its R, G, B channels and only its alpha
  becomes 0. The source stores \<open>image.Transparent\<close>, which zeroes all four channels: a 1x1
  image whose pixel \<open>(10, 20, 30, 255)\<close> equals the background sample (distance 0, below the
  threshold 0.13) ends with the pixel \<open>(0, 0, 0, 0)\<close>, so its red channel changed.
\<close>

theorem greenscreen_counterexample:
  "discrete_dist (At \<lparr>Width = 1, Height = 1, Pix = [RGBA 10 20 30 255]\<rparr> 0 0)
       (At \<lparr>Width = 1, Height = 1, Pix = [RGBA 10 20 30 255]\<rparr> 0 0) < 13 / 100 \<and>
   At (greenscreen discrete_dist \<lparr>Width = 1, Height = 1, Pix = [RGBA 10 20 30 255]\<rparr>
         (Some \<lparr>Width = 1, Height = 1, Pix = [RGBA 10 20 30 255]\<rparr>) (13 / 100)) 0 0 = RGBA 0 0 0 0 \<and>
   cR (At (greenscreen discrete_dist \<lparr>Width = 1, Height = 1, Pix = [RGBA 10 20 30 255]\<rparr>
         (Some \<lparr>Width = 1, Height = 1, Pix = [RGBA 10 20 30 255]\<rparr>) (13 / 100)) 0 0)
     \<noteq> cR (At \<lparr>Width = 1, Height = 1, Pix = [RGBA 10 20 30 255]\<rparr> 0 0)"
  by (simp add: greenscreen_def for_yx_def greenscreen_body_def discrete_dist_def At_def
      in_rect_def PixOffset_def image_Set_def SetRGBA_def rgbaModel_def Transparent_def)

text \<open>
  C3, amended. For every coordinate of the current image where the distance between its
  pixel and the background sample's pixel is strictly below the threshold, background
  subtraction sets the pixel to transparent black \<open>(0, 0, 0, 0)\<close> in place; for every
  coordinate where the distance is at least the threshold the pixel is unchanged. The
  image keeps its size, and without a background sample nothing changes.
\<close>

theorem greenscreen_masks:
  assumes "wf_image img" and "x < Width img" and "y < Height img"
  shows "greenscreen labdist img None threshold = img \<and>
   Width (greenscreen labdist img (Some bg) threshold) = Width img \<and>
   Height (greenscreen labdist img (Some bg) threshold) = Height img \<and>
   At (greenscreen labdist img (Some bg) threshold) x y =
     (if labdist (At img x y) (At bg x y) < threshold then RGBA 0 0 0 0 else At img x y)"
  using for_yx_px_update [OF assms(1), of "Height img" "Width img" "gs_px labdist bg threshold"]
    assms(2,3)
  by (simp add: greenscreen_def greenscreen_body_px gs_px_def in_rect_def)

text \<open>
  The theorem on a 2x1 image whose first pixel equals the background and whose second
  pixel differs from it.
\<close>

theorem greenscreen_masks_witness:
  "wf_image \<lparr>Width = 2, Height = 1, Pix = [RGBA 10 20 30 255, RGBA 90 80 70 255]\<rparr> \<and>
   At (greenscreen discrete_dist \<lparr>Width = 2, Height = 1, Pix = [RGBA 10 20 30 255, RGBA 90 80 70 255]\<rparr>
         (Some \<lparr>Width = 2, Height = 1, Pix = [RGBA 10 20 30 255, RGBA 1 2 3 255]\<rparr>) (13 / 100)) 0 0
     = RGBA 0 0 0 0 \<and>
   At (greenscreen discrete_dist \<lparr>Width = 2, Height = 1, Pix = [RGBA 10 20 30 255, RGBA 90 80 70 255]\<rparr>
         (Some \<lparr>Width = 2, Height = 1, Pix = [RGBA 10 20 30 255, RGBA 1 2 3 255]\<rparr>) (13 / 100)) 1 0
     = RGBA 90 80 70 255"
proof -
  let ?img = "\<lparr>Width = 2, Height = 1, Pix = [RGBA 10 20 30 255, RGBA 90 80 70 255]\<rparr>"
  let ?bg = "\<lparr>Width = 2, Height = 1, Pix = [RGBA 10 20 30 255, RGBA 1 2 3 255]\<rparr>"
  have wf: "wf_image ?img"
    by (simp add: wf_image_def)
  have i0: "At ?img 0 0 = RGBA 10 20 30 255" and i1: "At ?img 1 0 = RGBA 90 80 70 255"
    and b0: "At ?bg 0 0 = RGBA 10 20 30 255" and b1: "At ?bg 1 0 = RGBA 1 2 3 255"
    by (simp_all add: At_def in_rect_def PixOffset_def)
  have "At (greenscreen discrete_dist ?img (Some ?bg) (13 / 100)) 0 0 = RGBA 0 0 0 0"
    using greenscreen_masks [OF wf, of 0 0 discrete_dist "13 / 100" ?bg]
    unfolding i0 b0 discrete_dist_def by simp
  moreover have "At (greenscreen discrete_dist ?img (Some ?bg) (13 / 100)) 1 0 = RGBA 90 80 70 255"
    using greenscreen_masks [OF wf, of 1 0 discrete_dist "13 / 100" ?bg]
    unfolding i1 b1 discrete_dist_def by simp
  ultimately show ?thesis
    using wf by simp
qed

section \<open>Properties of \<open>imageToANSI\<close>\<close>

lemma fold_snoc: "fold (\<lambda>x s. s @ [g x]) xs s = s @ map g xs"
  by (induction xs arbitrary: s) simp_all

lemma ansi_row_cells: "ansi_row p img (2 * k) str = str @ ansi_cells p img k"
  by (simp add: ansi_row_def ansi_cells_def fold_snoc)

lemma ansi_rows_eq:
  "y = 2 * k \<Longrightarrow>
   ansi_rows p img y str =
     str @ concat (map (\<lambda>j. ansi_cells p img j @ [Newline]) [k..<(Height img + 1) div 2])"
proof (induction p img y str arbitrary: k rule: ansi_rows.induct)
  case (1 p img y str)
  show ?case
  proof (cases "y < Height img")
    case True
    then have k: "k < (Height img + 1) div 2"
      using "1.prems" by simp
    have "ansi_rows p img (y + 2) (ansi_row p img y str @ [Newline]) =
        (ansi_row p img y str @ [Newline]) @
          concat (map (\<lambda>j. ansi_cells p img j @ [Newline]) [Suc k..<(Height img + 1) div 2])"
      using "1.IH" [OF True, of "Suc k"] "1.prems" by simp
    then show ?thesis
      using True k "1.prems"
      by (subst ansi_rows.simps) (simp add: ansi_row_cells upt_conv_Cons)
  next
    case False
    then have "(Height img + 1) div 2 \<le> k"
      using "1.prems" by simp
    then show ?thesis
      using False by (subst ansi_rows.simps) simp
  qed
qed

lemma imageToANSI_eq:
  "imageToANSI p img =
     concat (map (\<lambda>j. ansi_cells p img j @ [Newline]) [0..<(Height img + 1) div 2])"
  using ansi_rows_eq [of 0 0 p img "[]"] by (simp add: imageToANSI_def)

lemma text_lines_cells:
  "text_lines cur (map (\<lambda>x. HalfBlock (f x) (b x)) xs @ rest) =
     text_lines (cur @ map (\<lambda>x. HalfBlock (f x) (b x)) xs) rest"
  by (induction xs arbitrary: cur) simp_all

lemma text_lines_row:
  "text_lines [] (ansi_cells p img j @ Newline # rest) = ansi_cells p img j # text_lines [] rest"
  unfolding ansi_cells_def by (simp add: text_lines_cells)

lemma text_lines_rows:
  "text_lines [] (concat (map (\<lambda>j. ansi_cells p img j @ [Newline]) js)) =
     map (ansi_cells p img) js"
  by (induction js) (simp_all add: text_lines_row)

lemma text_lines_imageToANSI:
  "text_lines [] (imageToANSI p img) = map (ansi_cells p img) [0..<(Height img + 1) div 2]"
  by (simp add: imageToANSI_eq text_lines_rows)

lemma ansi_cells_nth:
  "x < Width img \<Longrightarrow> ansi_cells p img k ! x =
     HalfBlock (p (ColorRGBA (At img x (2 * k)))) (p (ColorRGBA (At img x (2 * k + 1))))"
  by (simp add: ansi_cells_def)

text \<open>
  C7. For an image of even height \<open>H\<close> and width \<open>W\<close> the output has exactly \<open>H / 2\<close> text
  lines, each of \<open>W\<close> cells, and the cell at column \<open>x\<close> of line \<open>k\<close> has the pixel at
  \<open>(x, 2k)\<close> as foreground and the pixel at \<open>(x, 2k + 1)\<close> as background.
\<close>

theorem imageToANSI_even:
  assumes "even (Height img)" and "k < Height img div 2" and "x < Width img"
  shows "length (text_lines [] (imageToANSI p img)) = Height img div 2 \<and>
    length (text_lines [] (imageToANSI p img) ! k) = Width img \<and>
    text_lines [] (imageToANSI p img) ! k ! x =
      HalfBlock (p (ColorRGBA (At img x (2 * k)))) (p (ColorRGBA (At img x (2 * k + 1))))"
proof -
  have h: "(Height img + 1) div 2 = Height img div 2"
    using assms(1) by presburger
  have lines: "text_lines [] (imageToANSI p img) = map (ansi_cells p img) [0..<Height img div 2]"
    unfolding text_lines_imageToANSI h ..
  have row: "length (ansi_cells p img k) = Width img"
    by (simp add: ansi_cells_def)
  show ?thesis
    unfolding lines using assms(2,3) by (simp add: ansi_cells_nth row)
qed

text \<open>
  The theorem on a 2x2 image, with the identity for the profile conversion.
\<close>

theorem imageToANSI_even_witness:
  "even (Height \<lparr>Width = 2, Height = 2,
      Pix = [RGBA 1 1 1 255, RGBA 2 2 2 255, RGBA 3 3 3 255, RGBA 4 4 4 255]\<rparr>) \<and>
   length (text_lines [] (imageToANSI (\<lambda>c. c) \<lparr>Width = 2, Height = 2,
      Pix = [RGBA 1 1 1 255, RGBA 2 2 2 255, RGBA 3 3 3 255, RGBA 4 4 4 255]\<rparr>)) = 1 \<and>
   text_lines [] (imageToANSI (\<lambda>c. c) \<lparr>Width = 2, Height = 2,
      Pix = [RGBA 1 1 1 255, RGBA 2 2 2 255, RGBA 3 3 3 255, RGBA 4 4 4 255]\<rparr>) ! 0 ! 1 =
     HalfBlock (ColorRGBA (RGBA 2 2 2 255)) (ColorRGBA (RGBA 4 4 4 255))"
proof -
  let ?img = "\<lparr>Width = 2, Height = 2,
      Pix = [RGBA 1 1 1 255, RGBA 2 2 2 255, RGBA 3 3 3 255, RGBA 4 4 4 255]\<rparr>"
  have e: "even (Height ?img)" and k: "0 < Height ?img div 2" and x: "1 < Width ?img"
    by simp_all
  have top: "At ?img 1 (2 * 0) = RGBA 2 2 2 255" and bot: "At ?img 1 (2 * 0 + 1) = RGBA 4 4 4 255"
    by (simp_all add: At_def in_rect_def PixOffset_def)
  show ?thesis
    using imageToANSI_even [OF e k x, of "\<lambda>c. c"] e unfolding top bot by simp
qed

text \<open>
  C10. \<open>imageToANSI\<close> is total: the row loop terminates for every height (its termination
  is proved with the definition) and no step can fault, since \<open>At\<close> answers the zero colour
  outside the rectangle. The output has \<open>ceil(H / 2) = (H + 1) div 2\<close> text lines, and for odd
  \<open>H\<close> every cell of the last line takes its background from the out-of-bounds point
  \<open>(x, H)\<close>, which is transparent black.
\<close>

theorem imageToANSI_total:
  "length (text_lines [] (imageToANSI p img)) = (Height img + 1) div 2 \<and>
   (odd (Height img) \<and> x < Width img \<longrightarrow>
      At img x (Height img) = RGBA 0 0 0 0 \<and>
      last (text_lines [] (imageToANSI p img)) ! x =
        HalfBlock (p (ColorRGBA (At img x (Height img - 1)))) (p (ColorRGBA (RGBA 0 0 0 0))))"
proof -
  have out: "At img x (Height img) = RGBA 0 0 0 0"
    by (simp add: At_def in_rect_def)
  have "last (text_lines [] (imageToANSI p img)) ! x =
        HalfBlock (p (ColorRGBA (At img x (Height img - 1)))) (p (ColorRGBA (RGBA 0 0 0 0)))"
    if odd: "odd (Height img)" and x: "x < Width img"
  proof -
    obtain m where m: "Height img = 2 * m + 1"
      using odd by (auto elim: oddE)
    have n: "(Height img + 1) div 2 = Suc m"
      using m by simp
    have "text_lines [] (imageToANSI p img) = map (ansi_cells p img) [0..<Suc m]"
      unfolding text_lines_imageToANSI n ..
    then have "last (text_lines [] (imageToANSI p img)) = ansi_cells p img m"
      by simp
    then show ?thesis
      using x m out by (simp add: ansi_cells_nth)
  qed
  then show ?thesis
    using out by (simp add: text_lines_imageToANSI)
qed

text \<open>
  The theorem on a 2x3 image: two lines, the last cell of the last line has the zero
  colour as background.
\<close>

theorem imageToANSI_total_witness:
  "length (text_lines [] (imageToANSI (\<lambda>c. c) \<lparr>Width = 2, Height = 3,
      Pix = [RGBA 1 1 1 255, RGBA 2 2 2 255, RGBA 3 3 3 255, RGBA 4 4 4 255,
             RGBA 5 5 5 255, RGBA 6 6 6 255]\<rparr>)) = 2 \<and>
   last (text_lines [] (imageToANSI (\<lambda>c. c) \<lparr>Width = 2, Height = 3,
      Pix = [RGBA 1 1 1 255, RGBA 2 2 2 255, RGBA 3 3 3 255, RGBA 4 4 4 255,
             RGBA 5 5 5 255, RGBA 6 6 6 255]\<rparr>)) ! 1 =
     HalfBlock (ColorRGBA (RGBA 6 6 6 255)) (ColorRGBA (RGBA 0 0 0 0))"
proof -
  let ?img = "\<lparr>Width = 2, Height = 3,
      Pix = [RGBA 1 1 1 255, RGBA 2 2 2 255, RGBA 3 3 3 255, RGBA 4 4 4 255,
             RGBA 5 5 5 255, RGBA 6 6 6 255]\<rparr>"
  have h: "odd (Height ?img) \<and> 1 < Width ?img"
    by simp
  have top: "At ?img 1 (Height ?img - 1) = RGBA 6 6 6 255"
    by (simp add: At_def in_rect_def PixOffset_def)
  show ?thesis
    using imageToANSI_total [of "\<lambda>c. c" ?img 1] h unfolding top by simp
qed

section \<open>Properties of \<open>frameToImage\<close>\<close>

lemma yuyv_body_ok:
  assumes "planes_ok w h m yuyv" and "length frame = 4 * m" and "i < m"
  shows "\<exists>yuyv'. yuyv_body frame i yuyv = Inr yuyv' \<and> planes_ok w h m yuyv'"
  using assms by (simp add: yuyv_body_def planes_ok_def Let_def)

lemma yuyv_loop_ok:
  assumes "length frame = 4 * m" and "\<forall>i \<in> set idx. i < m" and "planes_ok w h m yuyv"
  shows "\<exists>yuyv'. yuyv_loop frame idx yuyv = Inr yuyv' \<and> planes_ok w h m yuyv'"
  using assms(2,3)
proof (induction idx arbitrary: yuyv)
  case Nil
  then show ?case by simp
next
  case (Cons i rest)
  then have "i < m" by simp
  from yuyv_body_ok [OF Cons.prems(2) assms(1) this]
  obtain y1 where y1: "yuyv_body frame i yuyv = Inr y1" "planes_ok w h m y1"
    by blast
  have "\<forall>i \<in> set rest. i < m"
    using Cons.prems(1) by simp
  from Cons.IH [OF this y1(2)] show ?case
    using y1(1) by simp
qed

lemma planes_ok_New:
  "even w \<Longrightarrow> planes_ok w h (w div 2 * h) (NewYCbCr422 w h)"
  by (auto simp: planes_ok_def NewYCbCr422_def Let_def elim!: evenE)

lemma draw_body_px: "draw_body conv src = px_update (draw_px conv src)"
  by (intro ext) (simp add: draw_body_def px_update_def draw_px_def Let_def split: prod.split)

lemma cA_draw_px: "cA (draw_px conv src x y old) = 255"
  by (simp add: draw_px_def Let_def split: prod.split)

lemma nth_Pix_At:
  assumes "wf_image img" and "k < length (Pix img)"
  shows "Pix img ! k = At img (k mod Width img) (k div Width img)"
proof -
  have k: "k < Width img * Height img"
    using assms by (simp add: wf_image_def)
  then have w: "0 < Width img"
    by (cases "Width img") simp_all
  have "k div Width img < Height img"
    using k w by (simp add: less_mult_imp_div_less mult.commute)
  then show ?thesis
    using w by (simp add: At_def in_rect_def PixOffset_def)
qed

lemma draw_YCbCr_props:
  "Width (draw_YCbCr conv (NewRGBA w h) src) = w \<and>
   Height (draw_YCbCr conv (NewRGBA w h) src) = h \<and>
   length (Pix (draw_YCbCr conv (NewRGBA w h) src)) = w * h \<and>
   (\<forall>px \<in> set (Pix (draw_YCbCr conv (NewRGBA w h) src)). cA px = 255)"
proof -
  let ?img = "draw_YCbCr conv (NewRGBA w h) src"
  note loop = for_yx_px_update [OF wf_NewRGBA, of h w "draw_px conv src" w h]
  have eq: "?img = for_yx h w (px_update (draw_px conv src)) (NewRGBA w h)"
    by (simp add: draw_YCbCr_def draw_body_px)
  have wf: "wf_image ?img" and dims: "Width ?img = w" "Height ?img = h"
    using loop by (simp_all add: eq)
  have len: "length (Pix ?img) = w * h"
    using wf dims by (simp add: wf_image_def)
  have at: "cA (At ?img x y) = 255" if "x < w" "y < h" for x y
    using loop that by (simp add: eq in_rect_def cA_draw_px)
  have "cA px = 255" if "px \<in> set (Pix ?img)" for px
  proof -
    from that obtain k where k: "k < length (Pix ?img)" "px = Pix ?img ! k"
      by (auto simp: in_set_conv_nth)
    have kk: "k < w * h" using k(1) len by simp
    then have w: "0 < w" by (cases w) simp_all
    have "k div w < h"
      using kk w by (simp add: less_mult_imp_div_less mult.commute)
    moreover have "k mod w < w" using w by simp
    ultimately show ?thesis
      using nth_Pix_At [OF wf k(1)] at k(2) dims by simp
  qed
  then show ?thesis
    using dims len by blast
qed

text \<open>
  C6. For every even width (YUYV422 packs pixels in horizontal pairs, so a valid width is
  even), every height and every buffer of exactly \<open>width * height * 2\<close> bytes, decoding
  succeeds and yields an image of \<open>width * height\<close> pixels whose alpha channels are all 255.
  Decoding is a function of the buffer and the size alone, so two runs on the same buffer
  yield the same image.
\<close>

theorem frameToImage_yuyv:
  assumes "even w" and "length frame = w * h * 2"
  shows "\<exists>img. frameToImage YCbCrToRGB frame w h = Inr img \<and>
    Width img = w \<and> Height img = h \<and> length (Pix img) = w * h \<and>
    (\<forall>px \<in> set (Pix img). cA px = 255)"
proof -
  let ?m = "w div 2 * h"
  let ?new = "NewYCbCr422 w h"
  have len: "length frame = 4 * ?m"
    using assms by (auto elim!: evenE)
  have p0: "planes_ok w h ?m ?new"
    using assms(1) by (rule planes_ok_New)
  then have cb: "length (Cb ?new) = ?m"
    by (simp add: planes_ok_def)
  have "\<forall>i \<in> set [0..<length (Cb ?new)]. i < ?m"
    by (simp add: cb)
  from yuyv_loop_ok [OF len this p0]
  obtain y1 where y1: "yuyv_loop frame [0..<length (Cb ?new)] ?new = Inr y1" "planes_ok w h ?m y1"
    by blast
  have "frameToImage YCbCrToRGB frame w h = Inr (draw_YCbCr YCbCrToRGB (NewRGBA w h) y1)"
    using y1 by (simp add: frameToImage_def Let_def planes_ok_def)
  then show ?thesis
    using draw_YCbCr_props [of YCbCrToRGB w h y1] by simp
qed

text \<open>
  With an odd width the first chroma round already indexes past the luma plane and the
  buffer: the decode panics.
\<close>

lemma frameToImage_odd_width_panics:
  "frameToImage YCbCrToRGB [0, 0] 1 1 = Inl IndexOutOfRange"
  by (simp add: frameToImage_def NewYCbCr422_def yuyv_body_def Let_def)

text \<open>
  The theorem on one macro-pixel (a 2x1 frame), with a stand-in for the colour conversion.
\<close>

theorem frameToImage_yuyv_witness:
  "even (2::nat) \<and> length [16, 128, 235, 128 :: u8] = 2 * 1 * 2 \<and>
   (\<exists>img. frameToImage (\<lambda>y cb cr. (y, cb, cr)) [16, 128, 235, 128] 2 1 = Inr img \<and>
      Width img = 2 \<and> Height img = 1 \<and> length (Pix img) = 2 * 1 \<and>
      list_all (\<lambda>px. cA px = 255) (Pix img))"
proof -
  have e: "even (2::nat)" and l: "length [16, 128, 235, 128 :: u8] = 2 * 1 * 2"
    by simp_all
  show ?thesis
    using frameToImage_yuyv [OF e l, of "\<lambda>y cb cr. (y, cb, cr)"] e l
    by (simp add: list_all_iff)
qed

section \<open>Properties of the FPS window\<close>

lemma shift_loop_eq:
  "i < length xs \<Longrightarrow> shift_loop i xs = hd xs # take i xs @ drop (Suc i) xs"
proof (induction i arbitrary: xs)
  case 0
  then show ?case by (cases xs) simp_all
next
  case (Suc i)
  let ?ys = "xs[Suc i := xs ! i]"
  have i: "i < length ?ys" using Suc.prems by simp
  have hd: "hd ?ys = hd xs"
    using Suc.prems by (cases xs) simp_all
  have dr: "drop (Suc i) ?ys = xs ! i # drop (Suc (Suc i)) xs"
    using Suc.prems by (simp add: drop_update_swap Cons_nth_drop_Suc [symmetric] upd_conv_take_nth_drop)
  have tk: "take (Suc i) xs = take i xs @ [xs ! i]"
    using Suc.prems by (simp add: take_Suc_conv_app_nth)
  show ?case
    using Suc.IH [OF i] by (simp add: hd dr tk)
qed

lemma shift_loop_full:
  assumes "xs \<noteq> []"
  shows "shift_loop (length xs - Suc 0) xs = hd xs # butlast xs"
proof -
  have "length xs - Suc 0 < length xs" using assms by simp
  from shift_loop_eq [OF this] show ?thesis
    using assms by (simp add: butlast_conv_take)
qed

lemma fold_add: "fold (\<lambda>f fpsa. fpsa + f) xs (a::real) = a + sum_list xs"
  by (induction xs arbitrary: a) simp_all

lemma go_div_pos: "0 < a \<Longrightarrow> 0 < b \<Longrightarrow> go_div a b = a div b"
  by (simp add: go_div_def)

lemma fps_tick_eq:
  assumes "0 < elapsed" and "fps \<noteq> []"
  shows "fps_tick elapsed fps =
    Inr (fps_push (real_of_int (Second div elapsed)) fps,
         sum_list (fps_push (real_of_int (Second div elapsed)) fps) / real (length fps))"
proof -
  have s: "go_div Second elapsed = Second div elapsed"
    using assms(1) by (simp add: go_div_pos Second_def)
  have l: "Suc (length fps - Suc 0) = length fps"
    using assms(2) by simp
  show ?thesis
    using assms
    by (simp add: fps_tick_def shift_loop_full Let_def s fold_add fps_push_def l)
qed

lemma fps_push_iter:
  "k \<le> length w \<Longrightarrow> (fps_push s ^^ k) w = replicate k s @ take (length w - k) w"
proof (induction k arbitrary: w)
  case 0
  then show ?case by simp
next
  case (Suc k)
  then have ne: "w \<noteq> []" by auto
  have len: "length (fps_push s w) = length w"
    using ne by (simp add: fps_push_def)
  have k: "k \<le> length (fps_push s w)"
    using Suc.prems len by simp
  have "(fps_push s ^^ Suc k) w = (fps_push s ^^ k) (fps_push s w)"
    by (simp add: funpow_swap1)
  also have "\<dots> = replicate k s @ take (length w - k) (fps_push s w)"
    using Suc.IH [OF k] len by simp
  also have "take (length w - k) (fps_push s w) = s # take (length w - Suc k) w"
  proof -
    have "length w - k = Suc (length w - Suc k)"
      using Suc.prems by simp
    then show ?thesis
      by (simp add: fps_push_def take_butlast)
  qed
  finally show ?case
    by (simp add: replicate_app_Cons_same)
qed

lemma fps_ticks_eq:
  assumes "0 < d" and "fps \<noteq> []"
  shows "fps_ticks (replicate (Suc k) d) fps shown =
    Inr ((fps_push (real_of_int (Second div d)) ^^ Suc k) fps,
         sum_list ((fps_push (real_of_int (Second div d)) ^^ Suc k) fps) / real (length fps))"
  using assms(2)
proof (induction k arbitrary: fps shown)
  case 0
  then show ?case
    using assms(1) by (simp add: fps_tick_eq)
next
  case (Suc k)
  let ?s = "real_of_int (Second div d)"
  have ne: "fps_push ?s fps \<noteq> []" by (simp add: fps_push_def)
  have len: "length (fps_push ?s fps) = length fps"
    using Suc.prems by (simp add: fps_push_def)
  have "fps_ticks (replicate (Suc (Suc k)) d) fps shown =
      fps_ticks (replicate (Suc k) d) (fps_push ?s fps)
        (sum_list (fps_push ?s fps) / real (length fps))"
    using assms(1) Suc.prems by (simp add: fps_tick_eq)
  also have "\<dots> = Inr ((fps_push ?s ^^ Suc k) (fps_push ?s fps),
         sum_list ((fps_push ?s ^^ Suc k) (fps_push ?s fps)) / real (length fps))"
    using Suc.IH [OF ne] len by simp
  finally show ?case
    by (simp add: funpow_swap1)
qed

lemma fps_ticks_ten:
  assumes "0 < d" and "length fps = 10"
  shows "fps_ticks (replicate 10 d) fps shown =
      Inr (replicate 10 (real_of_int (Second div d)), real_of_int (Second div d))"
proof -
  let ?s = "real_of_int (Second div d)"
  have ne: "fps \<noteq> []" using assms(2) by auto
  have "(fps_push ?s ^^ 10) fps = replicate 10 ?s"
    using fps_push_iter [of 10 fps ?s] assms(2) by simp
  moreover have "fps_ticks (replicate (Suc 9) d) fps shown =
      Inr ((fps_push ?s ^^ Suc 9) fps, sum_list ((fps_push ?s ^^ Suc 9) fps) / real (length fps))"
    using assms(1) ne by (rule fps_ticks_eq)
  ultimately show ?thesis
    by (simp add: assms(2) sum_list_replicate)
qed

lemma fps_seed_eq: "fps_seed = replicate 10 0"
  by (simp add: fps_seed_def eval_nat_numeral)

lemma length_fps_seed: "length fps_seed = 10"
  by (simp add: fps_seed_eq)

text \<open>
  C9. As the claim is worded, the new sample is \<open>1 / elapsed\<close> and ten ticks of duration \<open>d\<close>
  bring the average to \<open>1 / d\<close>. The source divides two durations as integers, so the
  sample is the truncated quotient: ten ticks of 0.4 s each, starting from the seeded
  window, show the average 2, not \<open>1 / 0.4 = 2.5\<close>.
\<close>

theorem fps_window_counterexample:
  "fps_ticks (replicate 10 400000000) fps_seed 0 = Inr (replicate 10 2, 2) \<and>
   (2::real) \<noteq> 1 / (400000000 / 1000000000)"
proof -
  have "Second div 400000000 = 2"
    by (simp add: Second_def)
  then show ?thesis
    using fps_ticks_ten [of 400000000 fps_seed 0] by (simp add: length_fps_seed)
qed

text \<open>
  C9, amended. On a ten-slot window, a tick with a positive elapsed time shifts every
  sample one slot older, dropping the oldest, puts the new sample at the front and
  reports the arithmetic mean of the ten slots, where the new sample is the integer
  quotient of one second by the elapsed time (both in nanoseconds). Ten consecutive
  ticks of the same duration \<open>d\<close> make the reported average equal to that quotient, which is
  \<open>1 / d\<close> (with \<open>d\<close> in seconds) whenever \<open>d\<close> divides one second.
\<close>

theorem fps_window:
  assumes "0 < d" and "length fps = 10"
  shows "fps_tick d fps =
      Inr (real_of_int (Second div d) # butlast fps,
           sum_list (real_of_int (Second div d) # butlast fps) / 10) \<and>
    fps_ticks (replicate 10 d) fps shown =
      Inr (replicate 10 (real_of_int (Second div d)), real_of_int (Second div d)) \<and>
    (d dvd Second \<longrightarrow>
      real_of_int (Second div d) = 1 / (real_of_int d / real_of_int Second))"
proof -
  let ?s = "real_of_int (Second div d)"
  have ne: "fps \<noteq> []" using assms(2) by auto
  have a: "fps_tick d fps = Inr (?s # butlast fps, sum_list (?s # butlast fps) / 10)"
    using fps_tick_eq [OF assms(1) ne] assms(2) by (simp add: fps_push_def)
  have b: "fps_ticks (replicate 10 d) fps shown = Inr (replicate 10 ?s, ?s)"
    using assms by (rule fps_ticks_ten)
  have c: "?s = 1 / (real_of_int d / real_of_int Second)" if "d dvd Second"
  proof -
    have "?s = real_of_int Second / real_of_int d"
      using that by (rule real_of_int_div)
    then show ?thesis by simp
  qed
  from a b c show ?thesis by blast
qed

text \<open>
  The theorem at 20 ms per tick on the seeded window: the first tick shows 5, the tenth
  shows 50.
\<close>

theorem fps_window_witness:
  "(0::int) < 20000000 \<and> length fps_seed = 10 \<and>
   fps_ticks (replicate 10 20000000) fps_seed 0 = Inr (replicate 10 50, 50) \<and>
   fps_tick 20000000 fps_seed = Inr (50 # replicate 9 0, 5)"
proof -
  have d: "(0::int) < 20000000" and l: "length fps_seed = 10"
    by (simp_all add: length_fps_seed)
  have s: "Second div 20000000 = 50"
    by (simp add: Second_def)
  have w: "butlast fps_seed = replicate 9 0"
    by (simp add: fps_seed_eq butlast_conv_take)
  show ?thesis
    using fps_window [OF d l, of 0] d l unfolding s w by (simp add: sum_list_replicate)
qed

section \<open>Properties of the child-process stream loop\<close>

lemma ReadFull_full:
  "n \<le> length bs \<Longrightarrow> ReadFull (bs, fin) n = (Inr (take n bs), (drop n bs, fin))"
  by (simp add: ReadFull_def)

lemma ReadFull_short:
  "length bs < n \<Longrightarrow> ReadFull (bs, fin) n =
     (Inl (case fin of Broken msg \<Rightarrow> ErrOther msg
           | Closed \<Rightarrow> if bs = [] then EOF else ErrUnexpectedEOF), ([], fin))"
  by (simp add: ReadFull_def)

lemma full_frames_step:
  "0 < n \<Longrightarrow> n \<le> length bs \<Longrightarrow> full_frames n bs = take n bs # full_frames n (drop n bs)"
  by (subst full_frames.simps) simp

lemma full_frames_short: "length bs < n \<Longrightarrow> full_frames n bs = []"
  by (subst full_frames.simps) simp

lemma full_frames_length:
  "0 < n \<Longrightarrow> (\<forall>f \<in> set (full_frames n bs). length f = n) \<and>
     length (full_frames n bs) = length bs div n"
proof (induction n bs rule: full_frames.induct)
  case (1 n bs)
  show ?case
  proof (cases "n \<le> length bs")
    case True
    have c: "0 < n \<and> n \<le> length bs"
      using "1.prems" True by simp
    note ih = "1.IH" [OF c "1.prems"]
    have d: "length bs div n = Suc ((length bs - n) div n)"
      using True "1.prems" by (simp add: le_div_geq)
    have e: "full_frames n bs = take n bs # full_frames n (drop n bs)"
      using "1.prems" True by (rule full_frames_step)
    have t: "length (take n bs) = n"
      using True by simp
    have l: "length (drop n bs) = length bs - n"
      by simp
    have "\<forall>f \<in> set (take n bs # full_frames n (drop n bs)). length f = n"
      using ih t by (simp del: length_take length_drop)
    moreover have "length (take n bs # full_frames n (drop n bs)) = Suc ((length bs - n) div n)"
      using ih l by (simp del: length_take length_drop)
    ultimately show ?thesis
      unfolding e d by (rule conjI)
  next
    case False
    then have s: "length bs < n" by simp
    have "length bs div n = 0"
      using s by simp
    then show ?thesis
      unfolding full_frames_short [OF s] by simp
  qed
qed


lemma unat_mul3:
  assumes "unat (a :: u64) * unat (b :: u64) * 3 < 2 ^ 64"
  shows "unat (a * b * 3) = unat a * unat b * 3"
proof -
  have "unat (a * b * 3) = (unat a * unat b * 3) mod 2 ^ 64"
    by (simp add: unat_word_ariths mod_mult_left_eq mod_mult_right_eq)
  then show ?thesis
    using assms by simp
qed

lemma frameSizeRGB_eq:
  assumes "4 * unat camWidth * unat camHeight < 2 ^ 63"
  shows "frameSizeRGB camWidth camHeight = int (unat camWidth * unat camHeight * 3)"
proof -
  let ?n = "unat camWidth * unat camHeight * 3"
  have "?n \<le> 4 * unat camWidth * unat camHeight"
    by simp
  also note assms
  finally have n63: "?n < 2 ^ 63" .
  have "(2::nat) ^ 63 \<le> 2 ^ 64" by simp
  with n63 have "?n < 2 ^ 64" by (rule less_le_trans)
  then have u: "unat (camWidth * camHeight * 3) = ?n"
    by (rule unat_mul3)
  have "unat (camWidth * camHeight * 3) < 2 ^ 63"
    unfolding u by (rule n63)
  then have "sint (camWidth * camHeight * 3) = int (unat (camWidth * camHeight * 3))"
    by (rule sint_unat_u64)
  then show ?thesis
    unfolding frameSizeRGB_def u .
qed

lemma gst_loop_step:
  assumes "\<not> ctx_done tick" and "n \<le> length bs"
    and "frameRGBToImage mem (take n bs) camWidth camHeight = Inr img"
    and "rest tick img = None"
  shows "gst_loop mem ctx_done rest camWidth camHeight n tick (bs, fin) frames =
    gst_loop mem ctx_done rest camWidth camHeight n (tick + 1) (drop n bs, fin) (frames @ [take n bs])"
  using assms by (subst gst_loop.simps) (simp add: ReadFull_full)

lemma gst_loop_last:
  assumes "\<not> ctx_done tick" and "length bs < n"
  shows "gst_loop mem ctx_done rest camWidth camHeight n tick (bs, fin) frames =
    Some (end_outcome fin, frames)"
  using assms
  by (subst gst_loop.simps)
    (simp add: ReadFull_short end_outcome_def split: stream_end.split)

lemma gst_loop_run:
  assumes "0 < n" and "\<And>buf. \<exists>img. frameRGBToImage mem buf camWidth camHeight = Inr img"
    and "\<And>t img. rest t img = None"
  shows "gst_loop mem (\<lambda>_. False) rest camWidth camHeight n tick (bs, fin) frames =
     Some (end_outcome fin, frames @ full_frames n bs)"
  using assms(1)
proof (induction n bs arbitrary: tick frames rule: full_frames.induct)
  case (1 n bs)
  show ?case
  proof (cases "n \<le> length bs")
    case True
    obtain img where img: "frameRGBToImage mem (take n bs) camWidth camHeight = Inr img"
      using assms(2) by blast
    have "gst_loop mem (\<lambda>_. False) rest camWidth camHeight n tick (bs, fin) frames =
        gst_loop mem (\<lambda>_. False) rest camWidth camHeight n (tick + 1) (drop n bs, fin)
          (frames @ [take n bs])"
      using _ True img assms(3) by (rule gst_loop_step) simp
    also have "\<dots> = Some (end_outcome fin, (frames @ [take n bs]) @ full_frames n (drop n bs))"
      using "1.prems" True by (intro "1.IH") simp_all
    also have "(frames @ [take n bs]) @ full_frames n (drop n bs) = frames @ full_frames n bs"
      using "1.prems" True by (simp add: full_frames_step [of n bs])
    finally show ?thesis .
  next
    case False
    then have short: "length bs < n" by simp
    show ?thesis
      using gst_loop_last [OF _ short, of "\<lambda>_. False" tick mem rest camWidth camHeight fin frames]
      by (simp add: full_frames_short [OF short])
  qed
qed

lemma gst_loop_closed:
  assumes "0 < n" and "\<And>buf. \<exists>img. frameRGBToImage mem buf camWidth camHeight = Inr img"
    and "\<And>t img. rest t img = None"
  shows "\<exists>fs. gst_loop mem ctx_done rest camWidth camHeight n tick (bs, Closed) frames =
    Some (ReturnNil, fs)"
  using assms(1)
proof (induction n bs arbitrary: tick frames rule: full_frames.induct)
  case (1 n bs)
  show ?case
  proof (cases "ctx_done tick")
    case True
    then show ?thesis by (subst gst_loop.simps) simp
  next
    case nc: False
    show ?thesis
    proof (cases "n \<le> length bs")
      case True
      obtain img where img: "frameRGBToImage mem (take n bs) camWidth camHeight = Inr img"
        using assms(2) by blast
      have "gst_loop mem ctx_done rest camWidth camHeight n tick (bs, Closed) frames =
          gst_loop mem ctx_done rest camWidth camHeight n (tick + 1) (drop n bs, Closed)
            (frames @ [take n bs])"
        using nc True img assms(3) by (rule gst_loop_step)
      moreover have "\<exists>fs. gst_loop mem ctx_done rest camWidth camHeight n (tick + 1)
          (drop n bs, Closed) (frames @ [take n bs]) = Some (ReturnNil, fs)"
        using "1.prems" True by (intro "1.IH") simp_all
      ultimately show ?thesis by simp
    next
      case False
      then have short: "length bs < n" by simp
      show ?thesis
        using gst_loop_last [where ctx_done = ctx_done and tick = tick, OF nc short]
        by (simp add: end_outcome_def)
    qed
  qed
qed

lemma run_gst_loop:
  assumes "4 * unat camWidth * unat camHeight < 2 ^ 63"
    and "mem (unat camWidth * unat camHeight * 3)"
  shows "run_gst mem ctx_done rest camWidth camHeight gstReader =
    gst_loop mem ctx_done rest camWidth camHeight (unat camWidth * unat camHeight * 3) 0 gstReader []"
proof -
  have "make_bytes mem (int (unat camWidth * unat camHeight * 3)) =
      Inr (replicate (unat camWidth * unat camHeight * 3) 0)"
    unfolding make_bytes_def using assms(2)
    by (simp only: nat_int of_nat_less_0_iff if_False if_True)
  then show ?thesis
    unfolding run_gst_def frameSizeRGB_eq [OF assms(1)] by simp
qed

lemma decode_any:
  assumes "0 < unat camWidth" and "0 < unat camHeight"
    and "4 * unat camWidth * unat camHeight < 2 ^ 63"
    and "mem (4 * unat camWidth * unat camHeight)"
  shows "\<exists>img. frameRGBToImage mem buf camWidth camHeight = Inr img"
proof -
  let ?W = "unat camWidth" and ?H = "unat camHeight"
  have "4 * ?W * 1 \<le> 4 * ?W * ?H"
    using assms(2) by (intro mult_le_mono) simp_all
  then have "4 * ?W \<le> 4 * ?W * ?H" by simp
  also note assms(3)
  finally have w4: "4 * ?W < 2 ^ 63" .
  have w: "?W < 2 ^ 62"
    using w4 by simp
  have "1 \<le> 4 * ?W" using assms(1) by simp
  then have "1 * ?H \<le> 4 * ?W * ?H"
    by (intro mult_le_mono) simp_all
  then have "?H \<le> 4 * ?W * ?H" by simp
  also note assms(3)
  finally have h: "?H < 2 ^ 63" .
  show ?thesis
    using frameRGBToImage_ok [where mem = mem, OF w h assms(3,4)] by blast
qed

lemma run_gst_run:
  assumes "0 < unat camWidth" and "0 < unat camHeight"
    and "4 * unat camWidth * unat camHeight < 2 ^ 63"
    and "mem (unat camWidth * unat camHeight * 3)"
    and "mem (4 * unat camWidth * unat camHeight)"
    and "\<And>t img. rest t img = None"
  shows "run_gst mem (\<lambda>_. False) rest camWidth camHeight (bs, fin) =
    Some (end_outcome fin, full_frames (unat camWidth * unat camHeight * 3) bs)"
proof -
  have n: "0 < unat camWidth * unat camHeight * 3"
    using assms(1,2) by simp
  have dec: "\<And>buf. \<exists>img. frameRGBToImage mem buf camWidth camHeight = Inr img"
    using assms(1,2,3,5) by (rule decode_any)
  show ?thesis
    unfolding run_gst_loop [where mem = mem, OF assms(3,4)]
    using gst_loop_run [OF n dec assms(6), where tick = 0 and bs = bs and fin = fin and frames = "[]"]
    by simp
qed

lemma run_gst_closed:
  assumes "0 < unat camWidth" and "0 < unat camHeight"
    and "4 * unat camWidth * unat camHeight < 2 ^ 63"
    and "mem (unat camWidth * unat camHeight * 3)"
    and "mem (4 * unat camWidth * unat camHeight)"
    and "\<And>t img. rest t img = None"
  shows "\<exists>fs. run_gst mem ctx_done rest camWidth camHeight (bs, Closed) = Some (ReturnNil, fs)"
proof -
  have n: "0 < unat camWidth * unat camHeight * 3"
    using assms(1,2) by simp
  have dec: "\<And>buf. \<exists>img. frameRGBToImage mem buf camWidth camHeight = Inr img"
    using assms(1,2,3,5) by (rule decode_any)
  show ?thesis
    unfolding run_gst_loop [where mem = mem, OF assms(3,4)]
    using n dec assms(6) by (rule gst_loop_closed)
qed

lemma gst_loop_zero_aux:
  "gst_loop mem c rest cw ch n tick gstReader frames = Some r \<Longrightarrow>
   \<not> (n = 0 \<and> (\<forall>t. \<not> c t) \<and> (\<forall>buf. \<exists>img. frameRGBToImage mem buf cw ch = Inr img) \<and>
      (\<forall>t img. rest t img = None))"
proof (rule gst_loop.raw_induct [where P = "\<lambda>mem c rest cw ch n tick rd frames r.
    \<not> (n = 0 \<and> (\<forall>t. \<not> c t) \<and> (\<forall>buf. \<exists>img. frameRGBToImage mem buf cw ch = Inr img) \<and>
      (\<forall>t img. rest t img = None))"])
  fix loop mem c rest cw ch n tick rd frames and r :: "outcome \<times> u8 list list"
  assume IH: "\<And>mem c rest cw ch n tick rd frames r.
      loop mem c rest cw ch n tick rd frames = Some r \<Longrightarrow>
      \<not> (n = 0 \<and> (\<forall>t. \<not> c t) \<and> (\<forall>buf. \<exists>img. frameRGBToImage mem buf cw ch = Inr img) \<and>
        (\<forall>t img. rest t img = None))"
    and step: "(if c tick then Some (ReturnNil, frames)
      else case ReadFull rd n of
        (res, rd') \<Rightarrow>
          (case res of
             Inl err \<Rightarrow>
               if err = EOF \<or> err = ErrUnexpectedEOF then Some (ReturnNil, frames)
               else Some (ReturnError err, frames)
           | Inr rgbBuf \<Rightarrow>
               (case frameRGBToImage mem rgbBuf cw ch of
                  Inl e \<Rightarrow> Some (Panicked e, frames)
                | Inr img \<Rightarrow>
                    (case rest tick img of
                       Some e \<Rightarrow> Some (Panicked e, frames)
                     | None \<Rightarrow> loop mem c rest cw ch n (tick + 1) rd' (frames @ [rgbBuf]))))) = Some r"
  show "\<not> (n = 0 \<and> (\<forall>t. \<not> c t) \<and> (\<forall>buf. \<exists>img. frameRGBToImage mem buf cw ch = Inr img) \<and>
        (\<forall>t img. rest t img = None))"
  proof
    assume z: "n = 0 \<and> (\<forall>t. \<not> c t) \<and> (\<forall>buf. \<exists>img. frameRGBToImage mem buf cw ch = Inr img) \<and>
        (\<forall>t img. rest t img = None)"
    have rf: "ReadFull rd 0 = (Inr [], rd)"
      by (cases rd) (simp add: ReadFull_def)
    obtain img where img: "frameRGBToImage mem [] cw ch = Inr img"
      using z by blast
    from step z rf img have "loop mem c rest cw ch 0 (tick + 1) rd (frames @ [[]]) = Some r"
      by simp
    from IH [OF this] z show False
      by simp
  qed
qed

text \<open>
  With a 0x0 capture size the frame buffer is empty, every read succeeds at once, and
  without cancellation the loop never returns.
\<close>

lemma run_gst_zero_never_returns:
  "run_gst (\<lambda>n. True) (\<lambda>t. False) (\<lambda>t img. None) 0 0 gstReader = None"
proof -
  have a: "unat (0 :: u64) < 2 ^ 62" and b: "unat (0 :: u64) < 2 ^ 63"
    and c: "4 * unat (0 :: u64) * unat (0 :: u64) < 2 ^ 63"
    by simp_all
  have dec: "\<forall>buf. \<exists>img. frameRGBToImage (\<lambda>n. True) buf 0 0 = Inr img"
    using frameRGBToImage_ok [where mem = "\<lambda>n. True", OF a b c] by blast
  have run: "run_gst (\<lambda>n. True) (\<lambda>t. False) (\<lambda>t img. None) 0 0 gstReader =
      gst_loop (\<lambda>n. True) (\<lambda>t. False) (\<lambda>t img. None) 0 0 0 0 gstReader []"
    using run_gst_loop [where mem = "\<lambda>n. True", OF c] by simp
  show ?thesis
  proof (cases "run_gst (\<lambda>n. True) (\<lambda>t. False) (\<lambda>t img. None) 0 0 gstReader")
    case None
    then show ?thesis .
  next
    case (Some r)
    then have "gst_loop (\<lambda>n. True) (\<lambda>t. False) (\<lambda>t img. None) 0 0 0 0 gstReader [] = Some r"
      using run by simp
    from gst_loop_zero_aux [OF this] dec show ?thesis by simp
  qed
qed

text \<open>
  With a capture size of \<open>2^32\<close> by \<open>2^32\<close> the product wraps to 0, the frame buffer is empty,
  the first read succeeds and the decoding panics.
\<close>

lemma run_gst_huge_panics:
  "run_gst (\<lambda>n. True) (\<lambda>t. False) (\<lambda>t img. None) 4294967296 4294967296 gstReader =
     Some (Panicked HugeOrNegativeDimensions, [])"
proof -
  have z: "(4294967296 * 4294967296 * 3 :: u64) = 0"
    by simp
  have fs: "frameSizeRGB 4294967296 4294967296 = 0"
    unfolding frameSizeRGB_def z by simp
  have rf: "ReadFull gstReader 0 = (Inr [], gstReader)"
    by (cases gstReader) (simp add: ReadFull_def)
  show ?thesis
    unfolding run_gst_def fs
    by (simp add: make_bytes_def) (subst gst_loop.simps, simp add: rf frameRGBToImage_huge)
qed

text \<open>
  C1. As the claim is worded, a read that ends partway through a frame is fatal unless the
  stream ended cleanly at a frame boundary. The source also returns \<open>nil\<close> on
  \<open>io.ErrUnexpectedEOF\<close>: with a 1x1 capture size (3-byte frames) and a stream of four bytes
  that is then closed, the second read ends after one byte with \<open>io.ErrUnexpectedEOF\<close>, and
  \<open>run\<close> still returns \<open>nil\<close> after the one full frame.
\<close>

theorem gst_stream_counterexample:
  "frameSizeRGB 1 1 = 3 \<and>
   fst (ReadFull ([4], Closed) 3) = Inl ErrUnexpectedEOF \<and>
   run_gst (\<lambda>n. True) (\<lambda>t. False) (\<lambda>t img. None) 1 1 ([1, 2, 3, 4], Closed) =
     Some (ReturnNil, [[1, 2, 3]])"
proof -
  have a: "0 < unat (1 :: u64)" and c: "4 * unat (1 :: u64) * unat (1 :: u64) < 2 ^ 63"
    by simp_all
  have n: "frameSizeRGB 1 1 = 3"
    using frameSizeRGB_eq [OF c] by simp
  have f: "full_frames 3 [1, 2, 3, 4 :: u8] = [[1, 2, 3]]"
    by (simp add: full_frames_step full_frames_short)
  have "run_gst (\<lambda>n. True) (\<lambda>t. False) (\<lambda>t img. None) 1 1 ([1, 2, 3, 4], Closed) =
      Some (end_outcome Closed, full_frames (unat (1 :: u64) * unat (1 :: u64) * 3) [1, 2, 3, 4])"
    using a a c by (rule run_gst_run) simp_all
  then have "run_gst (\<lambda>n. True) (\<lambda>t. False) (\<lambda>t img. None) 1 1 ([1, 2, 3, 4], Closed) =
      Some (ReturnNil, [[1, 2, 3]])"
    by (simp add: f end_outcome_def)
  moreover have "fst (ReadFull ([4], Closed) 3) = Inl ErrUnexpectedEOF"
    by (simp add: ReadFull_def)
  ultimately show ?thesis
    using n by simp
qed

text \<open>
  C1, amended. Take a capture size of positive width and height whose \<open>4 * width * height\<close>
  is below \<open>2^63\<close>, a machine that allocates the frame buffer and the image, and ticks
  whose remainder after the decoding never stops the program. Then the frame size is
  \<open>width * height * 3\<close> without wrap-around, every successful read delivers exactly that many
  bytes, and the frames processed are the successive full blocks of the stream. When the
  stream is closed, at a frame boundary or partway through a frame, \<open>run\<close> ends and returns
  \<open>nil\<close> (also if the context is cancelled earlier); when the stream breaks with any other
  read error, \<open>run\<close> ends, with no cancellation before, by returning that error.
\<close>

theorem gst_stream_end:
  assumes "0 < unat camWidth" and "0 < unat camHeight"
    and "4 * unat camWidth * unat camHeight < 2 ^ 63"
    and "mem (unat camWidth * unat camHeight * 3)"
    and "mem (4 * unat camWidth * unat camHeight)"
    and "\<forall>tick img. rest tick img = None"
  shows "frameSizeRGB camWidth camHeight = int (unat camWidth * unat camHeight * 3) \<and>
    (\<forall>rgbBuf gstReader'.
        ReadFull (bs, fin) (unat camWidth * unat camHeight * 3) = (Inr rgbBuf, gstReader')
        \<longrightarrow> length rgbBuf = unat camWidth * unat camHeight * 3) \<and>
    (\<forall>f \<in> set (full_frames (unat camWidth * unat camHeight * 3) bs).
        length f = unat camWidth * unat camHeight * 3) \<and>
    run_gst mem (\<lambda>t. False) rest camWidth camHeight (bs, Closed) =
      Some (ReturnNil, full_frames (unat camWidth * unat camHeight * 3) bs) \<and>
    run_gst mem (\<lambda>t. False) rest camWidth camHeight (bs, Broken msg) =
      Some (ReturnError (ErrOther msg), full_frames (unat camWidth * unat camHeight * 3) bs) \<and>
    (\<exists>fs. run_gst mem ctx_done rest camWidth camHeight (bs, Closed) = Some (ReturnNil, fs))"
proof -
  let ?n = "unat camWidth * unat camHeight * 3"
  have r: "\<And>t img. rest t img = None"
    using assms(6) by simp
  have n: "0 < ?n"
    using assms(1,2) by simp
  have z: "frameSizeRGB camWidth camHeight = int ?n"
    using assms(3) by (rule frameSizeRGB_eq)
  have a: "length rgbBuf = ?n" if "ReadFull (bs, fin) ?n = (Inr rgbBuf, rd)" for rgbBuf rd
    using that by (auto simp: ReadFull_def split: if_splits)
  have b: "\<forall>f \<in> set (full_frames ?n bs). length f = ?n"
    using full_frames_length [OF n, of bs] by simp
  have c: "run_gst mem (\<lambda>t. False) rest camWidth camHeight (bs, Closed) =
      Some (ReturnNil, full_frames ?n bs)"
    using run_gst_run [where mem = mem and bs = bs and fin = Closed, OF assms(1-5) r]
    by (simp add: end_outcome_def)
  have d: "run_gst mem (\<lambda>t. False) rest camWidth camHeight (bs, Broken msg) =
      Some (ReturnError (ErrOther msg), full_frames ?n bs)"
    using run_gst_run [where mem = mem and bs = bs and fin = "Broken msg", OF assms(1-5) r]
    by (simp add: end_outcome_def)
  have e: "\<exists>fs. run_gst mem ctx_done rest camWidth camHeight (bs, Closed) = Some (ReturnNil, fs)"
    using run_gst_closed [where mem = mem, OF assms(1-5) r] by simp
  from z a b c d e show ?thesis by blast
qed

text \<open>
  The theorem with a 1x1 capture size: a closed stream of two full frames, and a stream
  that breaks after four bytes.
\<close>

theorem gst_stream_end_witness:
  "0 < unat (1 :: u64) \<and> 4 * unat (1 :: u64) * unat (1 :: u64) < (2 :: nat) ^ 63 \<and>
   run_gst (\<lambda>n. n \<le> 1024) (\<lambda>t. False) (\<lambda>t img. None) 1 1 ([1, 2, 3, 4, 5, 6], Closed) =
     Some (ReturnNil, [[1, 2, 3], [4, 5, 6]]) \<and>
   run_gst (\<lambda>n. n \<le> 1024) (\<lambda>t. False) (\<lambda>t img. None) 1 1 ([1, 2, 3, 4], Broken ''EIO'') =
     Some (ReturnError (ErrOther ''EIO''), [[1, 2, 3]])"
proof -
  have p: "0 < unat (1 :: u64)" and c: "4 * unat (1 :: u64) * unat (1 :: u64) < (2 :: nat) ^ 63"
    and m3: "(\<lambda>n. n \<le> 1024) (unat (1 :: u64) * unat (1 :: u64) * 3)"
    and m4: "(\<lambda>n. n \<le> 1024) (4 * unat (1 :: u64) * unat (1 :: u64))"
    and r: "\<forall>tick img. (\<lambda>t img. None :: panic option) tick (img :: rgba_image) = None"
    by simp_all
  have n: "unat (1 :: u64) * unat (1 :: u64) * 3 = 3"
    by simp
  have f1: "full_frames 3 [1, 2, 3, 4, 5, 6 :: u8] = [[1, 2, 3], [4, 5, 6]]"
    and f2: "full_frames 3 [1, 2, 3, 4 :: u8] = [[1, 2, 3]]"
    by (simp_all add: full_frames_step full_frames_short)
  note t = gst_stream_end [where mem = "\<lambda>n. n \<le> 1024" and rest = "\<lambda>t img. None", OF p p c m3 m4 r]
  have "run_gst (\<lambda>n. n \<le> 1024) (\<lambda>t. False) (\<lambda>t img. None) 1 1 ([1, 2, 3, 4, 5, 6], Closed) =
     Some (ReturnNil, [[1, 2, 3], [4, 5, 6]])"
    using t [where bs = "[1, 2, 3, 4, 5, 6]"] unfolding n f1 by simp
  moreover have "run_gst (\<lambda>n. n \<le> 1024) (\<lambda>t. False) (\<lambda>t img. None) 1 1 ([1, 2, 3, 4], Broken ''EIO'') =
     Some (ReturnError (ErrOther ''EIO''), [[1, 2, 3]])"
    using t [where bs = "[1, 2, 3, 4]" and msg = "''EIO''"] unfolding n f2 by simp
  ultimately show ?thesis
    using p c by simp
qed

end
